theory Spec2Isabelle
  imports Main "HOL-Library.Multiset"
begin

text \<open>
  A model of the validation service of openapi-spec-validator: the handler of
  \<open>POST /yaml/validate\<close>, which runs the Spectral linter on an uploaded document, and
  \<open>getAiFixes\<close>, which has a completion service repair the document chunk by chunk.
  The repository holds index.js and earlier drafts of it. Two functions are modelled as
  index.js has them (\<open>formatSpectralOutput\<close>, the key-less \<open>getAiFixes\<close>), the repair by
  regions as the draft with \<open>js-yaml\<close> has it, and the summary of the issues as the
  drafts without repair have it. The libraries and the service are parameters.
\<close>

section \<open>Strings\<close>

text \<open>
  A JavaScript string is modelled as a \<^typ>\<open>string\<close>, the list of its code units, which
  are below 256 here; the functions below are the string methods the handlers use.
\<close>

definition startsWith :: "string \<Rightarrow> string \<Rightarrow> bool" where
  "startsWith s p \<longleftrightarrow> take (length p) s = p"

text \<open>\<open>s.split('.')\<close>: never empty, the empty string splits into one empty piece.\<close>

fun split_dot :: "string \<Rightarrow> string list" where
  "split_dot [] = [[]]"
| "split_dot (c # cs) =
     (if c = CHR ''.'' then [] # split_dot cs
      else (case split_dot cs of [] \<Rightarrow> [[c]] | w # ws \<Rightarrow> (c # w) # ws))"

text \<open>\<open>path.join('.')\<close>.\<close>

fun join_dot :: "string list \<Rightarrow> string" where
  "join_dot [] = []"
| "join_dot [s] = s"
| "join_dot (s # t # ss) = s @ ''.'' @ join_dot (t # ss)"

text \<open>\<open>text.trim()\<close>: the white space and line terminators below 256 are tab, line feed,
  vertical tab, form feed, carriage return, space and the no-break space.\<close>

definition is_space :: "char \<Rightarrow> bool" where
  "is_space c \<longleftrightarrow> (of_char c :: nat) \<in> {9, 10, 11, 12, 13, 32, 160}"

definition trim :: "string \<Rightarrow> string" where
  "trim s = rev (dropWhile is_space (rev (dropWhile is_space s)))"

text \<open>The first occurrence of a pattern: what stands before it and what follows it.\<close>

fun split_at_first :: "string \<Rightarrow> string \<Rightarrow> (string \<times> string) option" where
  "split_at_first pat [] = (if pat = [] then Some ([], []) else None)"
| "split_at_first pat (c # cs) =
     (if startsWith (c # cs) pat then Some ([], drop (length pat) (c # cs))
      else map_option (\<lambda>(before, after). (c # before, after)) (split_at_first pat cs))"

text \<open>
  \<open>text.match(/```yaml\n([\s\S]*?)\n```/)\<close>: the leftmost opening fence, then the shortest
  text up to a closing fence; the result is the captured group.
\<close>

definition yaml_fence_open :: string where
  "yaml_fence_open = ''```yaml'' @ [CHR 0x0A]"

definition yaml_fence_close :: string where
  "yaml_fence_close = CHR 0x0A # ''```''"

definition yaml_match :: "string \<Rightarrow> string option" where
  "yaml_match text =
     (case split_at_first yaml_fence_open text of
        None \<Rightarrow> None
      | Some (_, rest) \<Rightarrow>
          (case split_at_first yaml_fence_close rest of
             None \<Rightarrow> None
           | Some (captured, _) \<Rightarrow> Some captured))"

text \<open>Decimal digits: reading an array index, and printing a number in a template string.\<close>

definition digit_val :: "char \<Rightarrow> int option" where
  "digit_val c =
     (let n = of_char c :: int in if 48 \<le> n \<and> n \<le> 57 then Some (n - 48) else None)"

fun digits_val :: "int \<Rightarrow> string \<Rightarrow> int option" where
  "digits_val acc [] = Some acc"
| "digits_val acc (c # cs) =
     (case digit_val c of None \<Rightarrow> None | Some d \<Rightarrow> digits_val (10 * acc + d) cs)"

fun show_nat :: "nat \<Rightarrow> string" where
  "show_nat n =
     (if n < 10 then [char_of (48 + n)] else show_nat (n div 10) @ [char_of (48 + n mod 10)])"

section \<open>JavaScript objects\<close>

text \<open>
  An object is modelled by its own enumerable properties, as the list of its keys and
  values in the order \<open>for ... in\<close>, \<open>Object.keys\<close> and \<open>Object.assign\<close> visit them:
  the keys that are array indices first, in ascending numeric order, then the other
  keys in the order of their creation. Every object inherits the members of
  \<open>Object.prototype\<close>: where the object has no property of that name, reading one of
  these names gives a function (for \<open>__proto__\<close> the prototype), not undefined.
\<close>

text \<open>
  What a property access or an assignment throws. Where the effect of the code cannot be
  told in the values of this model, the model says so with \<open>Unmodelled\<close> and goes no
  further.
\<close>

datatype js_error = TypeError | Unmodelled

definition object_prototype_names :: "string list" where
  "object_prototype_names =
     [''constructor'', ''__defineGetter__'', ''__defineSetter__'', ''hasOwnProperty'',
      ''__lookupGetter__'', ''__lookupSetter__'', ''isPrototypeOf'', ''propertyIsEnumerable'',
      ''toString'', ''valueOf'', ''__proto__'', ''toLocaleString'']"

type_synonym 'v js_object = "(string \<times> 'v) list"

text \<open>A key is an array index when it is the canonical decimal form of an integer below
  \<open>2^32 - 1\<close>.\<close>

definition array_index :: "string \<Rightarrow> int option" where
  "array_index k =
     (if k = [] \<or> (hd k = CHR ''0'' \<and> k \<noteq> ''0'') then None
      else case digits_val 0 k of
             None \<Rightarrow> None
           | Some n \<Rightarrow> if n < 4294967295 then Some n else None)"

definition comes_before :: "string \<Rightarrow> string \<Rightarrow> bool" where
  "comes_before k a =
     (case array_index k of
        None \<Rightarrow> False
      | Some i \<Rightarrow> (case array_index a of None \<Rightarrow> True | Some j \<Rightarrow> i < j))"

definition obj_get :: "'v js_object \<Rightarrow> string \<Rightarrow> 'v option" where
  "obj_get obj k = map_of obj k"

text \<open>Creating a property that the object does not have yet.\<close>

fun ins_new :: "string \<Rightarrow> 'v \<Rightarrow> 'v js_object \<Rightarrow> 'v js_object" where
  "ins_new k v [] = [(k, v)]"
| "ins_new k v ((a, b) # ps) =
     (if comes_before k a then (k, v) # (a, b) # ps else (a, b) # ins_new k v ps)"

text \<open>Changing the value of a property the object has; its place stays.\<close>

fun obj_modify :: "string \<Rightarrow> ('v \<Rightarrow> 'v) \<Rightarrow> 'v js_object \<Rightarrow> 'v js_object" where
  "obj_modify k f [] = []"
| "obj_modify k f ((a, b) # ps) =
     (if a = k then (a, f b) # ps else (a, b) # obj_modify k f ps)"

text \<open>\<open>obj[k] = v\<close>.\<close>

definition obj_set :: "string \<Rightarrow> 'v \<Rightarrow> 'v js_object \<Rightarrow> 'v js_object" where
  "obj_set k v obj =
     (if obj_get obj k = None then ins_new k v obj else obj_modify k (\<lambda>_. v) obj)"

section \<open>Issue normalisation\<close>

text \<open>
  An item of Spectral's JSON output, as \<open>JSON.parse\<close> returns it. The severity is a
  number, as Spectral writes it. The path segments are taken in the text \<open>join\<close> gives
  them. An item without a path array or without a range makes the property access on it
  throw.
\<close>

record raw_issue =
  severity :: int
  code :: string
  message :: string
  path :: "string list option"
  range_start :: "(int \<times> int) option"

subsection \<open>The drafts that report a summary\<close>

record issue =
  i_severity :: string
  i_rule :: string
  i_message :: string
  i_path :: string
  i_line :: int
  i_character :: int

text \<open>The object literal \<open>severityMap\<close>: a lookup that is undefined off its four keys.\<close>

definition severityMap :: "int \<Rightarrow> string option" where
  "severityMap s =
     (if s = 0 then Some ''error''
      else if s = 1 then Some ''warn''
      else if s = 2 then Some ''info''
      else if s = 3 then Some ''hint''
      else None)"

text \<open>\<open>severityMap[item.severity] || 'unknown'\<close>: a missing or empty label falls to unknown.\<close>

definition severity_label :: "int \<Rightarrow> string" where
  "severity_label s =
     (case severityMap s of
        None \<Rightarrow> ''unknown''
      | Some l \<Rightarrow> (if l = [] then ''unknown'' else l))"

text \<open>
  The object pushed onto \<open>formatted.issues\<close> for one item; \<open>None\<close> when building it throws.
  One of the drafts copies the path array as it is, where the others join it; the label
  and the other fields are the same in all of them.
\<close>

definition format_item :: "raw_issue \<Rightarrow> issue option" where
  "format_item item =
     (case path item of
        None \<Rightarrow> None
      | Some p \<Rightarrow>
          (case range_start item of
             None \<Rightarrow> None
           | Some (line, character) \<Rightarrow>
               Some \<lparr> i_severity = severity_label (severity item),
                      i_rule = code item,
                      i_message = message item,
                      i_path = join_dot p,
                      i_line = line + 1,
                      i_character = character + 1 \<rparr>))"

text \<open>The loop of the summary drafts over the parsed results, with its two counters.\<close>

record summary_state =
  errorCount :: nat
  warningCount :: nat
  issueList :: "issue list"

fun summary_loop :: "summary_state \<Rightarrow> raw_issue list \<Rightarrow> summary_state option" where
  "summary_loop formatted [] = Some formatted"
| "summary_loop formatted (item # results) =
     (let severity = severity_label (severity item);
          counted = (if severity = ''error''
                     then formatted\<lparr>errorCount := errorCount formatted + 1\<rparr>
                     else if severity = ''warn''
                     then formatted\<lparr>warningCount := warningCount formatted + 1\<rparr>
                     else formatted)
      in case format_item item of
           None \<Rightarrow> None
         | Some i \<Rightarrow> summary_loop (counted\<lparr>issueList := issueList counted @ [i]\<rparr>) results)"

text \<open>
  \<open>formatSpectralOutput\<close> of the summary drafts: the status, the two counts, the total and
  the issues sorted by line, or, from the \<open>catch\<close>, the status \<open>error\<close> with its message and
  no issues.
\<close>

datatype summary_output =
    Summary string nat nat nat "issue list"
  | SummaryError string

definition formatSpectralOutput_summary ::
  "(string \<Rightarrow> raw_issue list option) \<Rightarrow> string \<Rightarrow> summary_output" where
  "formatSpectralOutput_summary json_parse spectralJsonString =
     (case json_parse spectralJsonString of
        None \<Rightarrow> SummaryError ''Failed to parse Spectral output.''
      | Some results \<Rightarrow>
          (case summary_loop \<lparr> errorCount = 0, warningCount = 0, issueList = [] \<rparr> results of
             None \<Rightarrow> SummaryError ''Failed to parse Spectral output.''
           | Some formatted \<Rightarrow>
               Summary (if errorCount formatted > 0 then ''invalid''
                        else if warningCount formatted > 0 then ''valid_with_warnings''
                        else ''valid'')
                       (errorCount formatted) (warningCount formatted) (length results)
                       (sort_key i_line (issueList formatted))))"

subsection \<open>The drafts that repair the document\<close>

record fix_issue =
  title :: string
  description :: string
  element :: string

record spectral_issues =
  warnings :: "fix_issue list"
  errors :: "fix_issue list"

definition newItem :: "raw_issue \<Rightarrow> fix_issue option" where
  "newItem item =
     (case path item of
        None \<Rightarrow> None
      | Some p \<Rightarrow> Some \<lparr> title = code item, description = message item, element = join_dot p \<rparr>)"

text \<open>The loop over the parsed results; \<open>None\<close> when an item throws.\<close>

fun format_loop :: "spectral_issues \<Rightarrow> raw_issue list \<Rightarrow> spectral_issues option" where
  "format_loop formatted [] = Some formatted"
| "format_loop formatted (item # results) =
     (case newItem item of
        None \<Rightarrow> None
      | Some n \<Rightarrow>
          (if severity item = 1
           then format_loop (formatted\<lparr>warnings := warnings formatted @ [n]\<rparr>) results
           else format_loop (formatted\<lparr>errors := errors formatted @ [n]\<rparr>) results))"

text \<open>
  \<open>formatSpectralOutput\<close> of index.js: \<open>JSON.parse\<close> is a parameter, \<open>None\<close> when it throws
  or when its value cannot be iterated. The \<open>catch\<close> returns the empty structure.
\<close>

definition formatSpectralOutput :: "(string \<Rightarrow> raw_issue list option) \<Rightarrow> string \<Rightarrow> spectral_issues" where
  "formatSpectralOutput json_parse spectralJsonString =
     (case json_parse spectralJsonString of
        None \<Rightarrow> \<lparr> warnings = [], errors = [] \<rparr>
      | Some results \<Rightarrow>
          (case format_loop \<lparr> warnings = [], errors = [] \<rparr> results of
             None \<Rightarrow> \<lparr> warnings = [], errors = [] \<rparr>
           | Some formatted \<Rightarrow> formatted))"

section \<open>Grouping the issues and cutting the groups into chunks\<close>

text \<open>The key computed in the \<open>reduce\<close> callback of \<open>getAiFixes\<close>.\<close>

definition chunk_key :: "fix_issue \<Rightarrow> string" where
  "chunk_key issue =
     (let elementParts = split_dot (element issue)
      in if length elementParts > 1 \<and> elementParts ! 0 = ''paths''
         then elementParts ! 0 @ ''.'' @ elementParts ! 1
         else elementParts ! 0)"

text \<open>
  The callback of \<open>reduce\<close>, on the accumulator that starts as \<open>{}\<close>. For a key that
  the accumulator does not own and that names a member of \<open>Object.prototype\<close>,
  \<open>acc[key]\<close> is that member: \<open>!acc[key]\<close> is false, \<open>acc[key].push\<close> is undefined and the
  call throws.
\<close>

definition group_step ::
  "fix_issue list js_object \<Rightarrow> fix_issue \<Rightarrow> js_error + fix_issue list js_object" where
  "group_step acc issue =
     (let key = chunk_key issue
      in if obj_get acc key = None \<and> key \<in> set object_prototype_names
         then Inl TypeError
         else (let acc1 = (if obj_get acc key = None then obj_set key [] acc else acc)
               in Inr (obj_modify key (\<lambda>xs. xs @ [issue]) acc1)))"

text \<open>\<open>allIssues.reduce(..., {})\<close>: an exception of the callback ends it.\<close>

fun reduce_groups ::
  "fix_issue list js_object \<Rightarrow> fix_issue list \<Rightarrow> js_error + fix_issue list js_object" where
  "reduce_groups acc [] = Inr acc"
| "reduce_groups acc (issue # allIssues) =
     (case group_step acc issue of
        Inl err \<Rightarrow> Inl err
      | Inr acc' \<Rightarrow> reduce_groups acc' allIssues)"

definition errorsByChunkKey :: "fix_issue list \<Rightarrow> js_error + fix_issue list js_object" where
  "errorsByChunkKey allIssues = reduce_groups [] allIssues"

definition CHUNK_SIZE :: nat where
  "CHUNK_SIZE = 5"

text \<open>The chunks that repeated \<open>splice(0, CHUNK_SIZE)\<close> takes off a list until it is empty.\<close>

function splice_chunks :: "'a list \<Rightarrow> 'a list list" where
  "splice_chunks xs =
     (if length xs > 0 then take CHUNK_SIZE xs # splice_chunks (drop CHUNK_SIZE xs) else [])"
  by pat_completeness auto
termination
  by (relation "measure length") (auto simp: CHUNK_SIZE_def)

text \<open>
  The sequence of (key, chunk) pairs the two nested loops of \<open>getAiFixes\<close> go through
  when no iteration returns early; there is none when the grouping throws.
\<close>

definition Partitioner :: "fix_issue list \<Rightarrow> (string \<times> fix_issue list) list" where
  "Partitioner allIssues =
     (case errorsByChunkKey allIssues of
        Inl err \<Rightarrow> []
      | Inr groups \<Rightarrow>
          concat (map (\<lambda>(key, issuesForChunk). map (Pair key) (splice_chunks issuesForChunk))
                      groups))"

text \<open>The key of an issue, from the location path of the raw item.\<close>

definition region_key :: "string list \<Rightarrow> string" where
  "region_key p = chunk_key \<lparr> title = [], description = [], element = join_dot p \<rparr>"

section \<open>Documents\<close>

text \<open>
  The value \<open>yaml.load\<close> returns, as a tree. A number is taken as an integer; a sequence
  is a JavaScript array. A document with anchors and aliases loads with objects that are
  reached at several places; the tree does not tell them from copies, and the subsection
  on the store below takes the merge up again for them.
\<close>

datatype yval =
    YUndefined
  | YNull
  | YBool bool
  | YNum int
  | YStr string
  | YSeq "yval list"
  | YObj "(string \<times> yval) list"

text \<open>
  Reading a name that a mapping does not own: a member of \<open>Object.prototype\<close> is not a
  value of the model, any other name reads as undefined.
\<close>

definition inherited :: "string \<Rightarrow> js_error + yval" where
  "inherited k = (if k \<in> set object_prototype_names then Inl Unmodelled else Inr YUndefined)"

text \<open>
  \<open>v[k]\<close>: reading a property of undefined or null throws. An array, a string, a number
  and a boolean inherit the members of their own prototypes as well, which are not listed
  here: the model does not tell what a name reads as that such a value does not own.
\<close>

fun get_prop :: "yval \<Rightarrow> string \<Rightarrow> js_error + yval" where
  "get_prop YUndefined k = Inl TypeError"
| "get_prop YNull k = Inl TypeError"
| "get_prop (YBool b) k = Inl Unmodelled"
| "get_prop (YNum n) k = Inl Unmodelled"
| "get_prop (YStr s) k =
     (if k = ''length'' then Inr (YNum (int (length s)))
      else case array_index k of
             None \<Rightarrow> Inl Unmodelled
           | Some i \<Rightarrow> if i < int (length s) then Inr (YStr [s ! nat i]) else Inl Unmodelled)"
| "get_prop (YSeq xs) k =
     (if k = ''length'' then Inr (YNum (int (length xs)))
      else case array_index k of
             None \<Rightarrow> Inl Unmodelled
           | Some i \<Rightarrow> if i < int (length xs) then Inr (xs ! nat i) else Inl Unmodelled)"
| "get_prop (YObj ps) k = (case obj_get ps k of None \<Rightarrow> inherited k | Some v \<Rightarrow> Inr v)"

text \<open>The own enumerable properties \<open>Object.assign\<close> copies from a source.\<close>

fun own_enumerable :: "yval \<Rightarrow> (string \<times> yval) list" where
  "own_enumerable (YObj ps) = ps"
| "own_enumerable (YSeq xs) = zip (map show_nat [0..<length xs]) xs"
| "own_enumerable (YStr s) = zip (map show_nat [0..<length s]) (map (\<lambda>c. YStr [c]) s)"
| "own_enumerable v = []"

text \<open>
  \<open>Object.assign(target, source)\<close>, as the value the target has afterwards. Undefined and
  null cannot be a target. A boolean or a number is wrapped, and the copy is lost with
  the wrapper; so it is for a string, whose index properties and length cannot be
  written. Two cases are left open as \<^const>\<open>Unmodelled\<close>: the properties that the
  copy adds to an array have no place in \<^typ>\<open>yval\<close>; and a key \<open>__proto__\<close> of the
  source that the target does not own is written through the setter of
  \<open>Object.prototype\<close>, which replaces the prototype of the target and adds no property.
\<close>

definition string_prop_readonly :: "string \<Rightarrow> string \<Rightarrow> bool" where
  "string_prop_readonly s k \<longleftrightarrow>
     k = ''length'' \<or> (case array_index k of None \<Rightarrow> False | Some i \<Rightarrow> i < int (length s))"

definition proto_setter_hit :: "'a js_object \<Rightarrow> 'b js_object \<Rightarrow> bool" where
  "proto_setter_hit props source_props \<longleftrightarrow>
     obj_get source_props ''__proto__'' \<noteq> None \<and> obj_get props ''__proto__'' = None"

fun object_assign :: "yval \<Rightarrow> yval \<Rightarrow> js_error + yval" where
  "object_assign YUndefined source = Inl TypeError"
| "object_assign YNull source = Inl TypeError"
| "object_assign (YBool b) source = Inr (YBool b)"
| "object_assign (YNum n) source = Inr (YNum n)"
| "object_assign (YStr s) source =
     (if list_ex (\<lambda>(k, v). string_prop_readonly s k) (own_enumerable source)
      then Inl TypeError else Inr (YStr s))"
| "object_assign (YSeq xs) source =
     (if own_enumerable source = [] then Inr (YSeq xs) else Inl Unmodelled)"
| "object_assign (YObj ps) source =
     (if proto_setter_hit ps (own_enumerable source) then Inl Unmodelled
      else Inr (YObj (fold (\<lambda>(k, v). obj_set k v) (own_enumerable source) ps)))"

section \<open>The region of a key: extracting it and merging it back\<close>

text \<open>
  The first lines of the loop over the keys: \<open>yamlChunkObject\<close> for a key, from the
  pieces of the key.
\<close>

definition extract_chunk :: "yval \<Rightarrow> string \<Rightarrow> js_error + yval" where
  "extract_chunk mainYamlObject key =
     (let objectPathParts = split_dot key
      in if length objectPathParts > 1
         then (case get_prop mainYamlObject ''paths'' of
                 Inl e \<Rightarrow> Inl e
               | Inr paths \<Rightarrow>
                   (case get_prop paths (objectPathParts ! 1) of
                      Inl e \<Rightarrow> Inl e
                    | Inr v \<Rightarrow> Inr (YObj [(objectPathParts ! 1, v)])))
         else (case get_prop mainYamlObject key of
                 Inl e \<Rightarrow> Inl e
               | Inr v \<Rightarrow> Inr (YObj [(key, v)])))"

text \<open>The object that \<open>mainYamlObject.paths\<close> names is changed in place.\<close>

fun replace_prop :: "yval \<Rightarrow> string \<Rightarrow> yval \<Rightarrow> yval" where
  "replace_prop (YObj ps) k v = YObj (obj_modify k (\<lambda>_. v) ps)"
| "replace_prop other k v = other"

text \<open>The two \<open>Object.assign\<close> calls that merge the fixed chunk into the main object.\<close>

definition merge_chunk :: "yval \<Rightarrow> string list \<Rightarrow> yval \<Rightarrow> js_error + yval" where
  "merge_chunk mainYamlObject objectPathParts fixedChunkObject =
     (if length objectPathParts > 1
      then (case get_prop mainYamlObject ''paths'' of
              Inl e \<Rightarrow> Inl e
            | Inr paths \<Rightarrow>
                (case object_assign paths fixedChunkObject of
                   Inl e \<Rightarrow> Inl e
                 | Inr paths' \<Rightarrow> Inr (replace_prop mainYamlObject ''paths'' paths')))
      else object_assign mainYamlObject fixedChunkObject)"

subsection \<open>The merge on a store of objects\<close>

text \<open>
  \<open>yaml.load\<close> returns one object for an anchor and each of its aliases, and
  \<open>Object.assign\<close> changes its target in place. Where that matters the document is a
  store: objects and arrays live at addresses, and a value refers to them. The functions
  below are the ones above, with the object changed at its address.
\<close>

type_synonym addr = nat

datatype hval = HUndefined | HNull | HBool bool | HNum int | HStr string | HRef addr

datatype hobj = HObject "(string \<times> hval) list" | HArray "hval list"

type_synonym store = "addr \<Rightarrow> hobj option"

definition h_inherited :: "string \<Rightarrow> js_error + hval" where
  "h_inherited k = (if k \<in> set object_prototype_names then Inl Unmodelled else Inr HUndefined)"

fun h_get_prop :: "store \<Rightarrow> hval \<Rightarrow> string \<Rightarrow> js_error + hval" where
  "h_get_prop st HUndefined k = Inl TypeError"
| "h_get_prop st HNull k = Inl TypeError"
| "h_get_prop st (HBool b) k = Inl Unmodelled"
| "h_get_prop st (HNum n) k = Inl Unmodelled"
| "h_get_prop st (HStr s) k =
     (if k = ''length'' then Inr (HNum (int (length s)))
      else case array_index k of
             None \<Rightarrow> Inl Unmodelled
           | Some i \<Rightarrow> if i < int (length s) then Inr (HStr [s ! nat i]) else Inl Unmodelled)"
| "h_get_prop st (HRef a) k =
     (case st a of
        None \<Rightarrow> Inl Unmodelled
      | Some (HObject ps) \<Rightarrow> (case obj_get ps k of None \<Rightarrow> h_inherited k | Some v \<Rightarrow> Inr v)
      | Some (HArray xs) \<Rightarrow>
          (if k = ''length'' then Inr (HNum (int (length xs)))
           else case array_index k of
                  None \<Rightarrow> Inl Unmodelled
                | Some i \<Rightarrow> if i < int (length xs) then Inr (xs ! nat i) else Inl Unmodelled))"

fun h_own_enumerable :: "store \<Rightarrow> hval \<Rightarrow> (string \<times> hval) list" where
  "h_own_enumerable st (HRef a) =
     (case st a of
        None \<Rightarrow> []
      | Some (HObject ps) \<Rightarrow> ps
      | Some (HArray xs) \<Rightarrow> zip (map show_nat [0..<length xs]) xs)"
| "h_own_enumerable st (HStr s) = zip (map show_nat [0..<length s]) (map (\<lambda>c. HStr [c]) s)"
| "h_own_enumerable st v = []"

text \<open>\<open>Object.assign(target, source)\<close>, as the store it leaves: only the target changes.\<close>

fun h_object_assign :: "store \<Rightarrow> hval \<Rightarrow> hval \<Rightarrow> js_error + store" where
  "h_object_assign st HUndefined source = Inl TypeError"
| "h_object_assign st HNull source = Inl TypeError"
| "h_object_assign st (HBool b) source = Inr st"
| "h_object_assign st (HNum n) source = Inr st"
| "h_object_assign st (HStr s) source =
     (if list_ex (\<lambda>(k, v). string_prop_readonly s k) (h_own_enumerable st source)
      then Inl TypeError else Inr st)"
| "h_object_assign st (HRef a) source =
     (case st a of
        None \<Rightarrow> Inl Unmodelled
      | Some (HArray xs) \<Rightarrow> (if h_own_enumerable st source = [] then Inr st else Inl Unmodelled)
      | Some (HObject ps) \<Rightarrow>
          (if proto_setter_hit ps (h_own_enumerable st source) then Inl Unmodelled
           else Inr (st(a \<mapsto> HObject (fold (\<lambda>(k, v). obj_set k v) (h_own_enumerable st source) ps)))))"

definition h_merge_chunk :: "store \<Rightarrow> hval \<Rightarrow> string list \<Rightarrow> hval \<Rightarrow> js_error + store" where
  "h_merge_chunk st mainYamlObject objectPathParts fixedChunkObject =
     (if length objectPathParts > 1
      then (case h_get_prop st mainYamlObject ''paths'' of
              Inl e \<Rightarrow> Inl e
            | Inr paths \<Rightarrow> h_object_assign st paths fixedChunkObject)
      else h_object_assign st mainYamlObject fixedChunkObject)"

text \<open>The tree that a value of the store shows, to a depth.\<close>

fun view :: "nat \<Rightarrow> store \<Rightarrow> hval \<Rightarrow> yval" where
  "view n st HUndefined = YUndefined"
| "view n st HNull = YNull"
| "view n st (HBool b) = YBool b"
| "view n st (HNum i) = YNum i"
| "view n st (HStr s) = YStr s"
| "view 0 st (HRef a) = YUndefined"
| "view (Suc n) st (HRef a) =
     (case st a of
        None \<Rightarrow> YUndefined
      | Some (HObject ps) \<Rightarrow> YObj (map (\<lambda>(k, v). (k, view n st v)) ps)
      | Some (HArray xs) \<Rightarrow> YSeq (map (view n st) xs))"

section \<open>The call of the completion service\<close>

text \<open>
  What \<open>fetch\<close> and the reading of its response come to: something in the \<open>try\<close> block
  throws; the response is not ok, with its status and body; or the JSON body is read,
  with the content of the first choice when there is one.
\<close>

datatype fetch_result =
    FetchThrows
  | NotOk nat string
  | OkJson "string option"

type_synonym request = "string \<times> fix_issue list"

text \<open>
  The collaborators: the JSON and YAML libraries (\<open>None\<close> when the call throws), the
  completion service, which may answer each call differently, and the configured key.
\<close>

record env =
  json_parse :: "string \<Rightarrow> raw_issue list option"
  yaml_load :: "string \<Rightarrow> yval option"
  yaml_dump :: "yval \<Rightarrow> string option"
  fetch :: "nat \<Rightarrow> request \<Rightarrow> fetch_result"
  GROQ_API_KEY :: "string option"

definition failure_prefix :: string where
  "failure_prefix = ''AI fix failed:''"

definition callAiWithChunk :: "env \<Rightarrow> nat \<Rightarrow> string \<Rightarrow> fix_issue list \<Rightarrow> string" where
  "callAiWithChunk e n yamlChunkString issuesChunk =
     (case fetch e n (yamlChunkString, issuesChunk) of
        FetchThrows \<Rightarrow> ''AI fix failed: An exception occurred.''
      | NotOk status errorBody \<Rightarrow>
          ''AI fix failed: API returned status '' @ show_nat status @ ''. Details: '' @ errorBody
      | OkJson content \<Rightarrow>
          (case content of
             None \<Rightarrow> ''AI fix failed: Could not extract corrected YAML from AI response.''
           | Some text \<Rightarrow>
               if text = [] then ''AI fix failed: Could not extract corrected YAML from AI response.''
               else (case yaml_match text of Some yamlMatch \<Rightarrow> yamlMatch | None \<Rightarrow> trim text)))"

text \<open>The same function in index.js, which differs in the text for an exception.\<close>

definition callAiWithChunk_index :: "env \<Rightarrow> nat \<Rightarrow> string \<Rightarrow> fix_issue list \<Rightarrow> string" where
  "callAiWithChunk_index e n yamlContent issuesChunk =
     (case fetch e n (yamlContent, issuesChunk) of
        FetchThrows \<Rightarrow> ''AI fix failed: An exception occurred while contacting the AI service.''
      | NotOk status errorBody \<Rightarrow>
          ''AI fix failed: API returned status '' @ show_nat status @ ''. Details: '' @ errorBody
      | OkJson content \<Rightarrow>
          (case content of
             None \<Rightarrow> ''AI fix failed: Could not extract corrected YAML from AI response.''
           | Some text \<Rightarrow>
               if text = [] then ''AI fix failed: Could not extract corrected YAML from AI response.''
               else (case yaml_match text of Some yamlMatch \<Rightarrow> yamlMatch | None \<Rightarrow> trim text)))"

section \<open>The orchestrator\<close>

text \<open>
  A run resolves to a string, or leaves the model. With it goes the list of the requests
  sent to the completion service, in the order of the calls.
\<close>

datatype outcome = Resolved string | OutsideModel

definition critical_error :: string where
  "critical_error = ''AI fix failed: A critical error occurred while processing the YAML.''"

definition parse_error :: string where
  "parse_error = ''AI fix failed: Could not parse YAML response from AI.''"

text \<open>
  The inner \<open>while\<close> loop over the issues of one key. It ends the run (\<open>Inl\<close>) or hands the
  main object on (\<open>Inr\<close>). An exception of \<open>yaml.dump\<close> reaches the outer \<open>catch\<close>.
\<close>

function fix_chunk_loop ::
  "env \<Rightarrow> string list \<Rightarrow> yval \<Rightarrow> yval \<Rightarrow> request list \<Rightarrow> fix_issue list
     \<Rightarrow> (outcome + yval) \<times> request list" where
  "fix_chunk_loop e objectPathParts mainYamlObject yamlChunkObject calls issuesForChunk =
     (if length issuesForChunk > 0 then
        (let errorChunk = take CHUNK_SIZE issuesForChunk;
             remaining = drop CHUNK_SIZE issuesForChunk
         in case yaml_dump e yamlChunkObject of
              None \<Rightarrow> (Inl (Resolved critical_error), calls)
            | Some yamlChunkString \<Rightarrow>
                (let fixedChunkString = callAiWithChunk e (length calls) yamlChunkString errorChunk;
                     calls' = calls @ [(yamlChunkString, errorChunk)]
                 in if startsWith fixedChunkString failure_prefix
                    then (Inl (Resolved fixedChunkString), calls')
                    else (case yaml_load e fixedChunkString of
                            None \<Rightarrow> (Inl (Resolved parse_error), calls')
                          | Some fixedChunkObject \<Rightarrow>
                              (case merge_chunk mainYamlObject objectPathParts fixedChunkObject of
                                 Inl TypeError \<Rightarrow> (Inl (Resolved parse_error), calls')
                               | Inl Unmodelled \<Rightarrow> (Inl OutsideModel, calls')
                               | Inr mainYamlObject' \<Rightarrow>
                                   fix_chunk_loop e objectPathParts mainYamlObject'
                                     fixedChunkObject calls' remaining))))
      else (Inr mainYamlObject, calls))"
  by pat_completeness auto
termination
  by (relation "measure (\<lambda>(e, parts, main, chunk, calls, issues). length issues)")
     (auto simp: CHUNK_SIZE_def)

text \<open>The loop \<open>for (const key in errorsByChunkKey)\<close>.\<close>

fun fix_regions ::
  "env \<Rightarrow> yval \<Rightarrow> request list \<Rightarrow> fix_issue list js_object \<Rightarrow> (outcome + yval) \<times> request list" where
  "fix_regions e mainYamlObject calls [] = (Inr mainYamlObject, calls)"
| "fix_regions e mainYamlObject calls ((key, issuesForChunk) # others) =
     (case extract_chunk mainYamlObject key of
        Inl TypeError \<Rightarrow> (Inl (Resolved critical_error), calls)
      | Inl Unmodelled \<Rightarrow> (Inl OutsideModel, calls)
      | Inr yamlChunkObject \<Rightarrow>
          (case fix_chunk_loop e (split_dot key) mainYamlObject yamlChunkObject calls issuesForChunk of
             (Inl out, calls') \<Rightarrow> (Inl out, calls')
           | (Inr mainYamlObject', calls') \<Rightarrow> fix_regions e mainYamlObject' calls' others))"

definition getAiFixes :: "env \<Rightarrow> string \<Rightarrow> spectral_issues \<Rightarrow> outcome \<times> request list" where
  "getAiFixes e initialYamlContent spectralIssues =
     (if GROQ_API_KEY e = None \<or> GROQ_API_KEY e = Some []
      then (Resolved ''AI fix skipped: GROQ_API_KEY not configured.'', [])
      else (case yaml_load e initialYamlContent of
              None \<Rightarrow> (Resolved critical_error, [])
            | Some mainYamlObject \<Rightarrow>
                (let allIssues = errors spectralIssues @ warnings spectralIssues
                 in case errorsByChunkKey allIssues of
                      Inl err \<Rightarrow> (Resolved critical_error, [])
                    | Inr groups \<Rightarrow>
                        (case fix_regions e mainYamlObject [] groups of
                           (Inl out, calls) \<Rightarrow> (out, calls)
                         | (Inr mainYamlObject', calls) \<Rightarrow>
                             (case yaml_dump e mainYamlObject' of
                                None \<Rightarrow> (Resolved critical_error, calls)
                              | Some text \<Rightarrow> (Resolved text, calls))))))"

subsection \<open>The orchestrator of index.js\<close>

text \<open>
  index.js sends the whole document with each chunk of five issues; the text a call
  returns is the document of the next call. The loop ends in one of two places, which
  log \<open>Stopping iteration due to AI error.\<close> and \<open>Finished all AI fix iterations
  successfully.\<close>; both return a text.
\<close>

datatype ending = Stopped | Finished

function fix_loop_index ::
  "env \<Rightarrow> string \<Rightarrow> request list \<Rightarrow> fix_issue list \<Rightarrow> ending \<times> string \<times> request list" where
  "fix_loop_index e currentYaml calls allIssues =
     (if length allIssues > 0 then
        (let chunkToProcess = take CHUNK_SIZE allIssues;
             remaining = drop CHUNK_SIZE allIssues;
             fixedYamlFromChunk = callAiWithChunk_index e (length calls) currentYaml chunkToProcess;
             calls' = calls @ [(currentYaml, chunkToProcess)]
         in if startsWith fixedYamlFromChunk failure_prefix
            then (Stopped, fixedYamlFromChunk, calls')
            else fix_loop_index e fixedYamlFromChunk calls' remaining)
      else (Finished, currentYaml, calls))"
  by pat_completeness auto
termination
  by (relation "measure (\<lambda>(e, currentYaml, calls, allIssues). length allIssues)")
     (auto simp: CHUNK_SIZE_def)

definition getAiFixes_index :: "env \<Rightarrow> string \<Rightarrow> spectral_issues \<Rightarrow> outcome \<times> request list" where
  "getAiFixes_index e initialYamlContent spectralIssues =
     (if GROQ_API_KEY e = None \<or> GROQ_API_KEY e = Some []
      then (Resolved ''AI fix skipped: GROQ_API_KEY not configured on the server.'', [])
      else (case fix_loop_index e initialYamlContent []
                   (errors spectralIssues @ warnings spectralIssues) of
              (ending, text, calls) \<Rightarrow> (Resolved text, calls)))"

section \<open>The endpoint\<close>

text \<open>
  The callback of \<open>exec\<close> in the handler of \<open>POST /yaml/validate\<close>, for an uploaded file:
  the status and the JSON body it sends. The handler is the same in index.js and in the
  draft that repairs by regions; the orchestrator is the \<open>getAiFixes\<close> of its file.
\<close>

datatype body =
    ErrorBody string string
  | Report spectral_issues string

datatype response = Response nat body | NoResponse

definition validate ::
  "(env \<Rightarrow> string \<Rightarrow> spectral_issues \<Rightarrow> outcome \<times> request list)
     \<Rightarrow> env \<Rightarrow> string \<Rightarrow> string \<Rightarrow> string \<Rightarrow> response \<times> request list" where
  "validate orchestrator e originalYamlContent stdout stderr =
     (if stderr \<noteq> [] \<and> stdout = []
      then (Response 500 (ErrorBody ''Failed to run spectral validation.'' stderr), [])
      else (let spectralOutput = (if stdout \<noteq> [] then stdout else ''[]'');
                spectralJsonResponse = formatSpectralOutput (json_parse e) spectralOutput
            in if length (errors spectralJsonResponse) = 0 \<and> length (warnings spectralJsonResponse) = 0
               then (Response 200
                       (Report spectralJsonResponse ''No issues found. Original YAML is valid.''), [])
               else (case orchestrator e originalYamlContent spectralJsonResponse of
                       (Resolved fixedYaml, calls) \<Rightarrow>
                         (Response 200 (Report spectralJsonResponse fixedYaml), calls)
                     | (OutsideModel, calls) \<Rightarrow> (NoResponse, calls))))"

section \<open>Notions used in the statements and proofs\<close>

text \<open>The accumulator after the callback of \<open>reduce\<close>, when the callback does not throw.\<close>

definition group_put :: "fix_issue list js_object \<Rightarrow> fix_issue \<Rightarrow> fix_issue list js_object" where
  "group_put acc issue =
     obj_modify (chunk_key issue) (\<lambda>xs. xs @ [issue])
       (if obj_get acc (chunk_key issue) = None then obj_set (chunk_key issue) [] acc else acc)"

text \<open>No issue of a list has a key that names a member of \<open>Object.prototype\<close>.\<close>

definition plain_keys :: "fix_issue list \<Rightarrow> bool" where
  "plain_keys allIssues \<longleftrightarrow> (\<forall>i \<in> set allIssues. chunk_key i \<notin> set object_prototype_names)"

text \<open>Every group of the accumulator holds issues of its own key only.\<close>

definition grouped :: "fix_issue list js_object \<Rightarrow> bool" where
  "grouped acc \<longleftrightarrow> (\<forall>(k, xs) \<in> set acc. \<forall>i \<in> set xs. chunk_key i = k)"


text \<open>The value \<open>Object.assign\<close> leaves under a key of the source: the last one given.\<close>

definition assigned :: "yval \<Rightarrow> string \<Rightarrow> yval option" where
  "assigned source k = map_of (rev (own_enumerable source)) k"

text \<open>
  A key resolves in a document when the main object is a mapping that has the key, or,
  for a key of two pieces, has a mapping under \<open>paths\<close> with the second piece as a key.
\<close>

definition resolves :: "yval \<Rightarrow> string \<Rightarrow> bool" where
  "resolves mainYamlObject key =
     (case mainYamlObject of
        YObj ps \<Rightarrow>
          (if length (split_dot key) > 1
           then (case obj_get ps ''paths'' of
                   Some (YObj qs) \<Rightarrow> obj_get qs (split_dot key ! 1) \<noteq> None
                 | _ \<Rightarrow> False)
           else obj_get ps key \<noteq> None)
      | _ \<Rightarrow> False)"

text \<open>
  The object a merge writes to: the main object, or, for a key of two pieces, the object
  that the main object has under \<open>paths\<close>.
\<close>

definition merge_target :: "store \<Rightarrow> addr \<Rightarrow> string list \<Rightarrow> addr option" where
  "merge_target st m parts =
     (if length parts > 1
      then (case st m of
              Some (HObject ps) \<Rightarrow> (case obj_get ps ''paths'' of Some (HRef p) \<Rightarrow> Some p | _ \<Rightarrow> None)
            | _ \<Rightarrow> None)
      else Some m)"

text \<open>Whether the view of a value, to a depth, reads the object at an address.\<close>

fun reads :: "nat \<Rightarrow> store \<Rightarrow> hval \<Rightarrow> addr \<Rightarrow> bool" where
  "reads 0 st v t = False"
| "reads (Suc n) st (HRef a) t =
     (a = t \<or>
      (case st a of
         None \<Rightarrow> False
       | Some (HObject ps) \<Rightarrow> list_ex (\<lambda>(k, v). reads n st v t) ps
       | Some (HArray xs) \<Rightarrow> list_ex (\<lambda>v. reads n st v t) xs))"
| "reads (Suc n) st HUndefined t = False"
| "reads (Suc n) st HNull t = False"
| "reads (Suc n) st (HBool b) t = False"
| "reads (Suc n) st (HNum i) t = False"
| "reads (Suc n) st (HStr s) t = False"

text \<open>The document as it reads after a merge, to a depth.\<close>

definition h_merge_view :: "nat \<Rightarrow> store \<Rightarrow> hval \<Rightarrow> string list \<Rightarrow> hval \<Rightarrow> js_error + yval" where
  "h_merge_view n st mainYamlObject objectPathParts fixedChunkObject =
     (case h_merge_chunk st mainYamlObject objectPathParts fixedChunkObject of
        Inl e \<Rightarrow> Inl e
      | Inr st' \<Rightarrow> Inr (view n st' mainYamlObject))"

text \<open>One pass of the inner loop, for the chunk it takes: it ends the run or goes on.\<close>

datatype pass = Stop outcome "request list" | Go yval yval "request list"

definition chunk_pass ::
  "env \<Rightarrow> string list \<Rightarrow> yval \<Rightarrow> yval \<Rightarrow> request list \<Rightarrow> fix_issue list \<Rightarrow> pass" where
  "chunk_pass e objectPathParts mainYamlObject yamlChunkObject calls errorChunk =
     (case yaml_dump e yamlChunkObject of
        None \<Rightarrow> Stop (Resolved critical_error) calls
      | Some yamlChunkString \<Rightarrow>
          (let fixedChunkString = callAiWithChunk e (length calls) yamlChunkString errorChunk;
               calls' = calls @ [(yamlChunkString, errorChunk)]
           in if startsWith fixedChunkString failure_prefix
              then Stop (Resolved fixedChunkString) calls'
              else (case yaml_load e fixedChunkString of
                      None \<Rightarrow> Stop (Resolved parse_error) calls'
                    | Some fixedChunkObject \<Rightarrow>
                        (case merge_chunk mainYamlObject objectPathParts fixedChunkObject of
                           Inl TypeError \<Rightarrow> Stop (Resolved parse_error) calls'
                         | Inl Unmodelled \<Rightarrow> Stop OutsideModel calls'
                         | Inr mainYamlObject' \<Rightarrow> Go mainYamlObject' fixedChunkObject calls'))))"

text \<open>The string \<open>callAiWithChunk\<close> returned for the call of a given number.\<close>

definition response_of :: "env \<Rightarrow> request list \<Rightarrow> nat \<Rightarrow> string" where
  "response_of e calls i = callAiWithChunk e i (fst (calls ! i)) (snd (calls ! i))"

definition adapter_failed :: "env \<Rightarrow> request list \<Rightarrow> nat \<Rightarrow> bool" where
  "adapter_failed e calls i \<longleftrightarrow> startsWith (response_of e calls i) failure_prefix"

definition unparsable :: "env \<Rightarrow> request list \<Rightarrow> nat \<Rightarrow> bool" where
  "unparsable e calls i \<longleftrightarrow>
     \<not> startsWith (response_of e calls i) failure_prefix \<and>
     yaml_load e (response_of e calls i) = None"

text \<open>
  What a run has settled from the call of number \<open>n\<close> on: a call that got a failure text,
  or a text that does not load, is the last call made, and it decides the outcome.
\<close>

definition settled :: "env \<Rightarrow> nat \<Rightarrow> request list \<Rightarrow> (outcome + yval) \<Rightarrow> bool" where
  "settled e n calls res \<longleftrightarrow>
     (\<forall>i. n \<le> i \<and> i < length calls \<and> (adapter_failed e calls i \<or> unparsable e calls i) \<longrightarrow>
          Suc i = length calls \<and>
          res = Inl (Resolved (if adapter_failed e calls i then response_of e calls i else parse_error)))"

text \<open>The same for the calls of index.js.\<close>

definition response_of_index :: "env \<Rightarrow> request list \<Rightarrow> nat \<Rightarrow> string" where
  "response_of_index e calls i = callAiWithChunk_index e i (fst (calls ! i)) (snd (calls ! i))"

section \<open>Sample data\<close>

definition sample_issue :: "string \<Rightarrow> fix_issue" where
  "sample_issue el = \<lparr> title = ''rule'', description = ''text'', element = el \<rparr>"

definition orders_issues :: "fix_issue list" where
  "orders_issues = map sample_issue
     [''paths./orders.get'', ''info.contact'', ''paths./orders.get.summary'', ''paths./orders.post'',
      ''paths./orders.post.tags'', ''paths./orders.put'', ''paths./orders.delete'', ''paths./orders'']"

definition sample_raw :: raw_issue where
  "sample_raw = \<lparr> severity = 1, code = ''info-contact'',
       message = ''Info object must have contact object.'', path = Some [''info''],
       range_start = Some (1, 5) \<rparr>"

definition sample_paths :: "(string \<times> yval) list" where
  "sample_paths = [(''/users'', YObj [(''get'', YObj [])]), (''/orders'', YObj [(''get'', YObj [])])]"

definition sample_props :: "(string \<times> yval) list" where
  "sample_props =
     [(''openapi'', YStr ''3.0.0''),
      (''info'', YObj [(''title'', YStr ''Shop'')]),
      (''paths'', YObj sample_paths)]"

definition sample_doc :: yval where
  "sample_doc = YObj sample_props"

definition users_chunk :: yval where
  "users_chunk = YObj [(''/users'', YObj [(''get'', YObj [])])]"

definition fixed_users :: yval where
  "fixed_users = YObj [(''/users'', YObj [(''get'', YObj [(''summary'', YStr ''List users'')])])]"

definition fixed_info :: yval where
  "fixed_info = YObj [(''info'', YObj [(''title'', YStr ''Shop''), (''version'', YStr ''1.0.0'')])]"

definition doc_fixed_users :: yval where
  "doc_fixed_users =
     YObj [(''openapi'', YStr ''3.0.0''),
           (''info'', YObj [(''title'', YStr ''Shop'')]),
           (''paths'', YObj [(''/users'', YObj [(''get'', YObj [(''summary'', YStr ''List users'')])]),
                             (''/orders'', YObj [(''get'', YObj [])])])]"

definition doc_fixed_info :: yval where
  "doc_fixed_info =
     YObj [(''openapi'', YStr ''3.0.0''),
           (''info'', YObj [(''title'', YStr ''Shop''), (''version'', YStr ''1.0.0'')]),
           (''paths'', YObj sample_paths)]"

text \<open>
  A stand-in for the two libraries and the service on the texts of the examples: documents
  are written in YAML's flow style, a property whose value is undefined is left out, and
  a text that is not one of the examples loads as a plain scalar.
\<close>

fun join_comma :: "string list \<Rightarrow> string" where
  "join_comma [] = []"
| "join_comma [s] = s"
| "join_comma (s # t # ss) = s @ '', '' @ join_comma (t # ss)"

fun flow_text :: "yval \<Rightarrow> string" where
  "flow_text YUndefined = []"
| "flow_text YNull = ''null''"
| "flow_text (YBool b) = (if b then ''true'' else ''false'')"
| "flow_text (YNum n) = (if n < 0 then ''-'' @ show_nat (nat (- n)) else show_nat (nat n))"
| "flow_text (YStr s) = s"
| "flow_text (YSeq xs) = ''['' @ join_comma (map flow_text xs) @ '']''"
| "flow_text (YObj ps) =
     ''{'' @ join_comma (map (\<lambda>(k, v). k @ '': '' @ flow_text v)
                             (filter (\<lambda>(k, v). v \<noteq> YUndefined) ps)) @ ''}''"

definition sample_text :: string where
  "sample_text = ''{openapi: 3.0.0, info: {title: Shop}, paths: {/users: {get: {}}, /orders: {get: {}}}}''"

definition sample_load :: "string \<Rightarrow> yval option" where
  "sample_load s =
     (if s = sample_text then Some sample_doc
      else if s = ''{info: {title: Shop, version: 1.0.0}}'' then Some fixed_info
      else if s = ''{/users: {get: {summary: List users}}}'' then Some fixed_users
      else if s = ''{components: {}}'' then Some (YObj [(''components'', YObj [])])
      else Some (YStr s))"

definition sample_parse :: "string \<Rightarrow> raw_issue list option" where
  "sample_parse s = (if s = ''[]'' then Some [] else None)"

text \<open>A service that is down, one that repairs the examples, and one that answers every
  request with a text of its own.\<close>

definition env_down :: env where
  "env_down =
     \<lparr> json_parse = sample_parse, yaml_load = sample_load, yaml_dump = (\<lambda>v. Some (flow_text v)),
       fetch = (\<lambda>n request. NotOk 503 ''Service Unavailable''), GROQ_API_KEY = Some ''gsk'' \<rparr>"

definition env_fix :: env where
  "env_fix =
     env_down \<lparr> fetch := (\<lambda>n (yamlChunkString, issuesChunk).
        if yamlChunkString = ''{info: {title: Shop}}''
        then OkJson (Some (''```yaml'' @ [CHR 0x0A] @ ''{info: {title: Shop, version: 1.0.0}}''
                           @ [CHR 0x0A] @ ''```''))
        else if yamlChunkString = ''{/users: {get: {}}}''
        then OkJson (Some '' {/users: {get: {summary: List users}}} '')
        else if yamlChunkString = ''{}''
        then OkJson (Some ''{components: {}}'')
        else NotOk 400 ''Bad Request'') \<rparr>"

definition env_odd :: env where
  "env_odd = env_down \<lparr> fetch := (\<lambda>n request. OkJson (Some ''AI fix failed: nothing to repair'')) \<rparr>"

definition info_issue :: fix_issue where
  "info_issue = sample_issue ''info.contact''"

definition users_issue :: fix_issue where
  "users_issue = sample_issue ''paths./users.get.summary''"

definition components_issue :: fix_issue where
  "components_issue = sample_issue ''components.schemas''"

definition down_text :: string where
  "down_text = ''AI fix failed: API returned status 503. Details: Service Unavailable''"

definition root_raw :: raw_issue where
  "root_raw = \<lparr> severity = 0, code = ''oas3-schema'', message = ''Document is not an object.'',
       path = Some [], range_start = Some (0, 0) \<rparr>"


text \<open>
  An issue at a top-level property of the document that is named \<open>constructor\<close>, as the
  rule for unexpected properties reports it.
\<close>

definition constructor_issue :: fix_issue where
  "constructor_issue = sample_issue ''constructor''"

text \<open>
  The item of the first example with another severity, the JSON text of the list that
  holds just this item, and a stand-in for \<open>JSON.parse\<close> on these texts.
\<close>

definition severity_raw :: "int \<Rightarrow> raw_issue" where
  "severity_raw n = sample_raw \<lparr> severity := n \<rparr>"

definition quoted :: "string \<Rightarrow> string" where
  "quoted s = [CHR 0x22] @ s @ [CHR 0x22]"

definition severity_text :: "int \<Rightarrow> string" where
  "severity_text n =
     ''[{'' @ quoted ''code'' @ '':'' @ quoted ''info-contact'' @ '','' @
     quoted ''path'' @ '':['' @ quoted ''info'' @ ''],'' @
     quoted ''message'' @ '':'' @ quoted ''Info object must have contact object.'' @ '','' @
     quoted ''severity'' @ '':'' @ flow_text (YNum n) @ '','' @
     quoted ''range'' @ '':{'' @ quoted ''start'' @ '':{'' @ quoted ''line'' @ '':1,'' @
     quoted ''character'' @ '':5}}}]''"

definition severity_parse :: "string \<Rightarrow> raw_issue list option" where
  "severity_parse s =
     (if s = ''[]'' then Some []
      else if s = severity_text 0 then Some [severity_raw 0]
      else if s = severity_text 1 then Some [severity_raw 1]
      else if s = severity_text 2 then Some [severity_raw 2]
      else if s = severity_text 7 then Some [severity_raw 7]
      else None)"

text \<open>
  The first example as a store, with the two fixed chunks as they are loaded, at the
  addresses 7 and 10.
\<close>

definition sample_store :: store where
  "sample_store = map_of
     [(0, HObject [(''openapi'', HStr ''3.0.0''), (''info'', HRef 1), (''paths'', HRef 2)]),
      (1, HObject [(''title'', HStr ''Shop'')]),
      (2, HObject [(''/users'', HRef 3), (''/orders'', HRef 5)]),
      (3, HObject [(''get'', HRef 4)]),
      (4, HObject []),
      (5, HObject [(''get'', HRef 6)]),
      (6, HObject []),
      (7, HObject [(''/users'', HRef 8)]),
      (8, HObject [(''get'', HRef 9)]),
      (9, HObject [(''summary'', HStr ''List users'')]),
      (10, HObject [(''info'', HRef 11)]),
      (11, HObject [(''title'', HStr ''Shop''), (''version'', HStr ''1.0.0'')])]"

text \<open>
  A document in which \<open>paths\<close> carries an anchor and the extension key \<open>x-paths\<close> is an
  alias of it, so that both refer to the object at address 1; the fixed chunk is at
  address 4.
\<close>

definition alias_store :: store where
  "alias_store = map_of
     [(0, HObject [(''openapi'', HStr ''3.0.0''), (''paths'', HRef 1), (''x-paths'', HRef 1)]),
      (1, HObject [(''/users'', HRef 2)]),
      (2, HObject [(''get'', HRef 3)]),
      (3, HObject []),
      (4, HObject [(''/users'', HRef 5)]),
      (5, HObject [(''get'', HRef 6)]),
      (6, HObject [(''summary'', HStr ''List users'')])]"

text \<open>A service whose answer is cut short, and does not load as YAML.\<close>

definition garbled_load :: "string \<Rightarrow> yval option" where
  "garbled_load s = (if s = ''{info: ['' then None else sample_load s)"

definition env_garbled :: env where
  "env_garbled =
     env_down \<lparr> yaml_load := garbled_load, fetch := (\<lambda>n request. OkJson (Some ''{info: ['')) \<rparr>"

text \<open>
  The issue of the item at the root, with the empty path; and an item under \<open>paths\<close> whose
  last segment holds a dot, with its issue.
\<close>

definition root_issue :: fix_issue where
  "root_issue = \<lparr> title = ''oas3-schema'', description = ''Document is not an object.'', element = [] \<rparr>"

definition dotted_raw :: raw_issue where
  "dotted_raw = \<lparr> severity = 1, code = ''extension-type'', message = ''Extension must be a string.'',
       path = Some [''paths'', ''/users'', ''get'', ''x-api-version-1.0''], range_start = Some (7, 6) \<rparr>"

definition dotted_issue :: fix_issue where
  "dotted_issue = \<lparr> title = ''extension-type'', description = ''Extension must be a string.'',
       element = ''paths./users.get.x-api-version-1.0'' \<rparr>"
section \<open>Facts about strings and objects\<close>

lemma split_dot_nonempty: "split_dot s \<noteq> []"
  by (induction s) (auto split: list.splits)

lemma split_dot_plain: "CHR ''.'' \<notin> set s \<Longrightarrow> split_dot s = [s]"
  by (induction s) auto

lemma split_dot_append:
  "CHR ''.'' \<notin> set s \<Longrightarrow> split_dot (s @ ''.'' @ r) = s # split_dot r"
  by (induction s) (auto split: list.splits)

lemma split_dot_join_dot:
  "p \<noteq> [] \<Longrightarrow> \<forall>seg \<in> set p. CHR ''.'' \<notin> set seg \<Longrightarrow> split_dot (join_dot p) = p"
proof (induction p rule: join_dot.induct)
  case 1
  then show ?case by simp
next
  case (2 s)
  then show ?case by (simp add: split_dot_plain)
next
  case (3 s t ss)
  then have "split_dot (join_dot (t # ss)) = t # ss" by simp
  moreover from "3.prems" have "CHR ''.'' \<notin> set s" by simp
  ultimately show ?case using split_dot_append [of s "join_dot (t # ss)"] by simp
qed

lemma obj_get_None_iff: "obj_get obj k = None \<longleftrightarrow> k \<notin> set (map fst obj)"
  by (simp add: obj_get_def map_of_eq_None_iff)

lemma keys_ins_new: "set (map fst (ins_new k v obj)) = insert k (set (map fst obj))"
  by (induction k v obj rule: ins_new.induct) auto

lemma set_ins_new: "set (ins_new k v obj) = insert (k, v) (set obj)"
  by (induction k v obj rule: ins_new.induct) auto

lemma map_fst_obj_modify: "map fst (obj_modify k f obj) = map fst obj"
  by (induction k f obj rule: obj_modify.induct) auto

lemma set_obj_modify:
  "(k', ys) \<in> set (obj_modify k f obj) \<Longrightarrow>
   (k', ys) \<in> set obj \<or> (k' = k \<and> (\<exists>xs. (k, xs) \<in> set obj \<and> ys = f xs))"
  by (induction k f obj rule: obj_modify.induct) (auto split: if_splits)

lemma map_of_ins_new:
  "k \<notin> set (map fst obj) \<Longrightarrow> map_of (ins_new k v obj) = (map_of obj)(k \<mapsto> v)"
  by (induction k v obj rule: ins_new.induct) (auto simp: fun_eq_iff)

lemma map_of_obj_modify:
  "map_of obj k = Some b \<Longrightarrow> map_of (obj_modify k f obj) = (map_of obj)(k \<mapsto> f b)"
  by (induction k f obj rule: obj_modify.induct) (auto simp: fun_eq_iff)

lemma map_of_obj_set: "map_of (obj_set k v obj) = (map_of obj)(k \<mapsto> v)"
proof (cases "obj_get obj k")
  case None
  then show ?thesis by (simp add: obj_set_def obj_get_None_iff map_of_ins_new)
next
  case (Some b)
  then show ?thesis by (simp add: obj_set_def obj_get_def map_of_obj_modify)
qed

lemma keys_obj_set: "set (map fst (obj_set k v obj)) = insert k (set (map fst obj))"
  by (auto simp: obj_set_def keys_ins_new map_fst_obj_modify obj_get_None_iff simp del: set_map)

lemma obj_modify_same: "map_of obj k = Some v \<Longrightarrow> obj_modify k (\<lambda>_. v) obj = obj"
  by (induction k "\<lambda>_ :: 'a. v" obj rule: obj_modify.induct) (auto split: if_splits)

lemma obj_set_same: "obj_get obj k = Some v \<Longrightarrow> obj_set k v obj = obj"
  by (simp add: obj_set_def obj_get_def obj_modify_same)

lemma map_of_fold_obj_set:
  "map_of (fold (\<lambda>(k, v). obj_set k v) src obj) = map_of obj ++ map_of (rev src)"
proof (induction src arbitrary: obj)
  case Nil
  then show ?case by simp
next
  case (Cons p src)
  obtain k v where p: "p = (k, v)" by (cases p)
  have "map_of (fold (\<lambda>(k, v). obj_set k v) (p # src) obj)
      = map_of (obj_set k v obj) ++ map_of (rev src)"
    by (simp add: p Cons.IH)
  also have "\<dots> = map_of obj ++ map_of (rev (p # src))"
    by (auto simp: p map_of_obj_set fun_eq_iff map_add_def split: option.splits)
  finally show ?case .
qed

lemma keys_fold_obj_set:
  "set (map fst (fold (\<lambda>(k, v). obj_set k v) src obj)) = set (map fst obj) \<union> set (map fst src)"
proof (induction src arbitrary: obj)
  case Nil
  then show ?case by simp
next
  case (Cons p src)
  obtain k v where p: "p = (k, v)" by (cases p)
  show ?case by (simp add: p Cons.IH keys_obj_set del: set_map)
qed









section \<open>Facts about the grouping and the chunks\<close>

declare splice_chunks.simps [simp del]

lemma splice_chunks_Nil: "splice_chunks [] = []"
  by (subst splice_chunks.simps) simp

lemma splice_chunks_step:
  "xs \<noteq> [] \<Longrightarrow> splice_chunks xs = take CHUNK_SIZE xs # splice_chunks (drop CHUNK_SIZE xs)"
  by (subst splice_chunks.simps) simp

lemma concat_splice_chunks: "concat (splice_chunks xs) = xs"
  by (induction xs rule: splice_chunks.induct) (subst splice_chunks.simps, simp)

lemma splice_chunks_bound:
  "b \<in> set (splice_chunks xs) \<Longrightarrow> length b \<le> CHUNK_SIZE \<and> b \<noteq> [] \<and> set b \<subseteq> set xs"
proof (induction xs rule: splice_chunks.induct)
  case (1 xs)
  show ?case
  proof (cases "xs = []")
    case True
    with "1.prems" show ?thesis by (simp add: splice_chunks_Nil)
  next
    case False
    with "1.prems" have "b = take CHUNK_SIZE xs \<or> b \<in> set (splice_chunks (drop CHUNK_SIZE xs))"
      by (simp add: splice_chunks_step)
    then show ?thesis
    proof
      assume "b = take CHUNK_SIZE xs"
      with False show ?thesis by (simp add: CHUNK_SIZE_def set_take_subset)
    next
      assume b: "b \<in> set (splice_chunks (drop CHUNK_SIZE xs))"
      from False have "0 < length xs" by simp
      from "1.IH" [OF this b] have "length b \<le> CHUNK_SIZE \<and> b \<noteq> [] \<and> set b \<subseteq> set (drop CHUNK_SIZE xs)" .
      then show ?thesis using set_drop_subset [of CHUNK_SIZE xs] by blast
    qed
  qed
qed

lemma concat_ins_new_empty: "concat (map snd (ins_new k [] obj)) = concat (map snd obj)"
  by (induction k "[] :: 'a list" obj rule: ins_new.induct) auto

lemma mset_concat_obj_modify:
  "k \<in> set (map fst obj) \<Longrightarrow>
   mset (concat (map snd (obj_modify k (\<lambda>xs. xs @ [i]) obj))) =
   add_mset i (mset (concat (map snd obj)))"
  by (induction k "\<lambda>xs. xs @ [i]" obj rule: obj_modify.induct) auto

lemma group_put_mset:
  "mset (concat (map snd (group_put acc i))) = add_mset i (mset (concat (map snd acc)))"
proof (cases "obj_get acc (chunk_key i) = None")
  case True
  let ?acc1 = "ins_new (chunk_key i) [] acc"
  have "chunk_key i \<in> set (map fst ?acc1)" by (simp add: keys_ins_new del: set_map)
  then have "mset (concat (map snd (obj_modify (chunk_key i) (\<lambda>xs. xs @ [i]) ?acc1)))
      = add_mset i (mset (concat (map snd ?acc1)))"
    by (rule mset_concat_obj_modify)
  with True show ?thesis by (simp add: group_put_def obj_set_def concat_ins_new_empty)
next
  case False
  then have k: "chunk_key i \<in> set (map fst acc)" by (simp add: obj_get_None_iff)
  from False have "group_put acc i = obj_modify (chunk_key i) (\<lambda>xs. xs @ [i]) acc"
    by (simp add: group_put_def Let_def del: not_None_eq)
  with mset_concat_obj_modify [OF k] show ?thesis by simp
qed

lemma group_put_grouped:
  assumes "grouped acc"
  shows "grouped (group_put acc i)"
proof -
  let ?k = "chunk_key i"
  let ?acc1 = "if obj_get acc ?k = None then obj_set ?k [] acc else acc"
  have a1: "\<forall>(k, xs) \<in> set ?acc1. \<forall>j \<in> set xs. chunk_key j = k"
    using assms by (auto simp: grouped_def obj_set_def set_ins_new)
  have "\<forall>(k, ys) \<in> set (obj_modify ?k (\<lambda>xs. xs @ [i]) ?acc1). \<forall>j \<in> set ys. chunk_key j = k"
  proof (clarify)
    fix k ys j
    assume m: "(k, ys) \<in> set (obj_modify ?k (\<lambda>xs. xs @ [i]) ?acc1)" and j: "j \<in> set ys"
    from set_obj_modify [OF m] show "chunk_key j = k"
    proof
      assume "(k, ys) \<in> set ?acc1"
      with a1 j show ?thesis by blast
    next
      assume "k = ?k \<and> (\<exists>xs. (?k, xs) \<in> set ?acc1 \<and> ys = xs @ [i])"
      then obtain xs where "k = ?k" "(?k, xs) \<in> set ?acc1" "ys = xs @ [i]" by blast
      with a1 j show ?thesis by auto
    qed
  qed
  then show ?thesis
    by (simp add: grouped_def group_put_def Let_def)
qed

lemma foldl_group_put:
  "grouped acc \<Longrightarrow>
   grouped (foldl group_put acc is) \<and>
   mset (concat (map snd (foldl group_put acc is))) = mset is + mset (concat (map snd acc))"
proof (induction "is" arbitrary: acc)
  case Nil
  then show ?case by simp
next
  case (Cons i "is")
  from Cons.prems have g: "grouped (group_put acc i)" by (rule group_put_grouped)
  from Cons.IH [OF g] show ?case by (simp add: group_put_mset)
qed

lemma distinct_ins_new:
  "k \<notin> set (map fst obj) \<Longrightarrow> distinct (map fst obj) \<Longrightarrow> distinct (map fst (ins_new k v obj))"
  by (induction k v obj rule: ins_new.induct) (auto simp: keys_ins_new simp del: set_map)

lemma group_put_distinct:
  "distinct (map fst acc) \<Longrightarrow> distinct (map fst (group_put acc i))"
  by (auto simp: group_put_def Let_def map_fst_obj_modify obj_set_def distinct_ins_new obj_get_None_iff
           simp del: set_map)

lemma foldl_group_put_distinct:
  "distinct (map fst acc) \<Longrightarrow> distinct (map fst (foldl group_put acc is))"
  by (induction "is" arbitrary: acc) (simp_all add: group_put_distinct)

lemma group_step_cases:
  "group_step acc i =
     (if obj_get acc (chunk_key i) = None \<and> chunk_key i \<in> set object_prototype_names
      then Inl TypeError else Inr (group_put acc i))"
  by (simp add: group_step_def group_put_def Let_def)

lemma reduce_groups_Inr:
  "reduce_groups acc is = Inr acc' \<Longrightarrow> acc' = foldl group_put acc is"
  by (induction "is" arbitrary: acc) (auto simp: group_step_cases split: if_splits)

lemma reduce_groups_plain:
  "plain_keys is \<Longrightarrow> reduce_groups acc is = Inr (foldl group_put acc is)"
  by (induction "is" arbitrary: acc) (auto simp: group_step_cases plain_keys_def)

lemma reduce_groups_thrown:
  "reduce_groups acc is = Inl err \<Longrightarrow> err = TypeError \<and> \<not> plain_keys is"
  by (induction "is" arbitrary: acc) (auto simp: group_step_cases plain_keys_def split: if_splits)

lemma errorsByChunkKey_plain:
  "plain_keys allIssues \<Longrightarrow> errorsByChunkKey allIssues = Inr (foldl group_put [] allIssues)"
  by (simp add: errorsByChunkKey_def reduce_groups_plain)

lemma errorsByChunkKey_Inr:
  assumes "errorsByChunkKey allIssues = Inr groups"
  shows "grouped groups \<and> distinct (map fst groups) \<and>
         mset (concat (map snd groups)) = mset allIssues"
proof -
  from assms have g: "groups = foldl group_put [] allIssues"
    by (simp add: errorsByChunkKey_def reduce_groups_Inr)
  have "grouped []" by (simp add: grouped_def)
  from foldl_group_put [OF this, of allIssues] foldl_group_put_distinct [of "[]" allIssues]
  show ?thesis by (simp add: g)
qed

lemma Partitioner_Inr:
  "errorsByChunkKey allIssues = Inr groups \<Longrightarrow>
   Partitioner allIssues =
     concat (map (\<lambda>(key, issuesForChunk). map (Pair key) (splice_chunks issuesForChunk)) groups)"
  by (simp add: Partitioner_def)

lemma concat_Partitioner:
  "errorsByChunkKey allIssues = Inr groups \<Longrightarrow>
   concat (map snd (Partitioner allIssues)) = concat (map snd groups)"
proof -
  have "concat (map snd (concat (map (\<lambda>(key, issuesForChunk). map (Pair key) (splice_chunks issuesForChunk)) g)))
      = concat (map snd g)" for g :: "fix_issue list js_object"
    by (induction g) (auto simp: comp_def concat_splice_chunks)
  then show "errorsByChunkKey allIssues = Inr groups \<Longrightarrow> ?thesis" by (simp add: Partitioner_Inr)
qed

lemma Partitioner_thrown: "errorsByChunkKey allIssues = Inl err \<Longrightarrow> Partitioner allIssues = []"
  by (simp add: Partitioner_def)

section \<open>Facts about the loops of the orchestrator\<close>

lemma fix_chunk_loop_unfold:
  "fix_chunk_loop e parts main chunk calls issues =
     (if issues = [] then (Inr main, calls)
      else (case chunk_pass e parts main chunk calls (take CHUNK_SIZE issues) of
              Stop out calls' \<Rightarrow> (Inl out, calls')
            | Go main' chunk' calls' \<Rightarrow>
                fix_chunk_loop e parts main' chunk' calls' (drop CHUNK_SIZE issues)))"
  by (subst fix_chunk_loop.simps)
     (simp add: chunk_pass_def Let_def split: option.splits sum.splits js_error.splits)

declare fix_chunk_loop.simps [simp del]

lemma chunk_pass_Go:
  assumes "chunk_pass e parts main chunk calls b = Go main' chunk' calls'"
  shows "\<exists>s. yaml_dump e chunk = Some s \<and> calls' = calls @ [(s, b)] \<and>
             \<not> startsWith (callAiWithChunk e (length calls) s b) failure_prefix \<and>
             yaml_load e (callAiWithChunk e (length calls) s b) = Some chunk' \<and>
             merge_chunk main parts chunk' = Inr main'"
  using assms
  by (auto simp: chunk_pass_def Let_def split: option.splits sum.splits js_error.splits if_splits)

lemma chunk_pass_Stop:
  assumes "chunk_pass e parts main chunk calls b = Stop out calls'"
  shows "(yaml_dump e chunk = None \<and> calls' = calls \<and> out = Resolved critical_error) \<or>
         (\<exists>s. yaml_dump e chunk = Some s \<and> calls' = calls @ [(s, b)] \<and>
            (let r = callAiWithChunk e (length calls) s b
             in if startsWith r failure_prefix then out = Resolved r
                else if yaml_load e r = None then out = Resolved parse_error
                else out = Resolved parse_error \<or> out = OutsideModel))"
  using assms
  by (auto simp: chunk_pass_def Let_def split: option.splits sum.splits js_error.splits if_splits)

lemma response_of_append:
  "i < length calls \<Longrightarrow> response_of e (calls @ new) i = response_of e calls i"
  by (simp add: response_of_def nth_append)

lemma response_of_last:
  "response_of e (calls @ (s, b) # new) (length calls) = callAiWithChunk e (length calls) s b"
  by (simp add: response_of_def nth_append)

lemma fix_chunk_loop_calls:
  "fix_chunk_loop e parts main chunk calls issues = (res, calls') \<Longrightarrow>
   \<exists>new. calls' = calls @ new \<and>
         (\<exists>rest. splice_chunks issues = map snd new @ rest) \<and>
         (\<forall>m. res = Inr m \<longrightarrow> map snd new = splice_chunks issues)"
proof (induction issues arbitrary: main chunk calls rule: length_induct)
  case (1 issues)
  show ?case
  proof (cases "issues = []")
    case True
    with "1.prems" show ?thesis by (simp add: fix_chunk_loop_unfold splice_chunks_Nil)
  next
    case False
    let ?b = "take CHUNK_SIZE issues"
    let ?r = "drop CHUNK_SIZE issues"
    from False have sc: "splice_chunks issues = ?b # splice_chunks ?r" by (rule splice_chunks_step)
    show ?thesis
    proof (cases "chunk_pass e parts main chunk calls ?b")
      case (Stop out calls1)
      with "1.prems" False have r: "res = Inl out" "calls' = calls1"
        by (simp_all add: fix_chunk_loop_unfold)
      from chunk_pass_Stop [OF Stop] have "calls1 = calls \<or> (\<exists>s. calls1 = calls @ [(s, ?b)])" by auto
      with r sc show ?thesis by auto
    next
      case (Go main1 chunk1 calls1)
      with "1.prems" False have r: "fix_chunk_loop e parts main1 chunk1 calls1 ?r = (res, calls')"
        by (simp add: fix_chunk_loop_unfold)
      from chunk_pass_Go [OF Go] obtain s where c1: "calls1 = calls @ [(s, ?b)]" by auto
      from False have "length ?r < length issues" by (simp add: CHUNK_SIZE_def)
      with "1.IH" r obtain new where n: "calls' = calls1 @ new"
        and p: "\<exists>rest. splice_chunks ?r = map snd new @ rest"
        and f: "\<forall>m. res = Inr m \<longrightarrow> map snd new = splice_chunks ?r"
        by blast
      from n c1 have "calls' = calls @ ((s, ?b) # new)" by simp
      moreover from p sc have "\<exists>rest. splice_chunks issues = map snd ((s, ?b) # new) @ rest" by auto
      moreover from f sc have "\<forall>m. res = Inr m \<longrightarrow> map snd ((s, ?b) # new) = splice_chunks issues" by auto
      ultimately show ?thesis by blast
    qed
  qed
qed

lemma settled_empty: "settled e (length calls) calls res"
  by (auto simp: settled_def)

lemma settled_extend:
  assumes "settled e (length calls1) (calls1 @ new) res"
    and "\<And>i. n \<le> i \<Longrightarrow> i < length calls1 \<Longrightarrow>
            \<not> adapter_failed e calls1 i \<and> \<not> unparsable e calls1 i"
  shows "settled e n (calls1 @ new) res"
  unfolding settled_def
proof (intro allI impI)
  fix i
  assume a: "n \<le> i \<and> i < length (calls1 @ new) \<and>
     (adapter_failed e (calls1 @ new) i \<or> unparsable e (calls1 @ new) i)"
  show "Suc i = length (calls1 @ new) \<and>
        res = Inl (Resolved (if adapter_failed e (calls1 @ new) i
                             then response_of e (calls1 @ new) i else parse_error))"
  proof (cases "i < length calls1")
    case True
    then have "adapter_failed e (calls1 @ new) i = adapter_failed e calls1 i"
      and "unparsable e (calls1 @ new) i = unparsable e calls1 i"
      by (simp_all add: adapter_failed_def unparsable_def response_of_append)
    with a assms(2) [of i] True show ?thesis by simp
  next
    case False
    with a assms(1) show ?thesis by (simp add: settled_def)
  qed
qed

lemma fix_chunk_loop_settled:
  "fix_chunk_loop e parts main chunk calls issues = (res, calls') \<Longrightarrow>
   settled e (length calls) calls' res"
proof (induction issues arbitrary: main chunk calls rule: length_induct)
  case (1 issues)
  show ?case
  proof (cases "issues = []")
    case True
    with "1.prems" show ?thesis by (simp add: fix_chunk_loop_unfold settled_empty)
  next
    case False
    let ?b = "take CHUNK_SIZE issues"
    let ?r = "drop CHUNK_SIZE issues"
    show ?thesis
    proof (cases "chunk_pass e parts main chunk calls ?b")
      case (Stop out calls1)
      with "1.prems" False have r: "res = Inl out" "calls' = calls1"
        by (simp_all add: fix_chunk_loop_unfold)
      from chunk_pass_Stop [OF Stop] show ?thesis
      proof
        assume "yaml_dump e chunk = None \<and> calls1 = calls \<and> out = Resolved critical_error"
        with r show ?thesis by (simp add: settled_empty)
      next
        assume "\<exists>s. yaml_dump e chunk = Some s \<and> calls1 = calls @ [(s, ?b)] \<and>
            (let r = callAiWithChunk e (length calls) s ?b
             in if startsWith r failure_prefix then out = Resolved r
                else if yaml_load e r = None then out = Resolved parse_error
                else out = Resolved parse_error \<or> out = OutsideModel)"
        then obtain s where c1: "calls1 = calls @ [(s, ?b)]"
          and o: "if startsWith (callAiWithChunk e (length calls) s ?b) failure_prefix
                  then out = Resolved (callAiWithChunk e (length calls) s ?b)
                  else if yaml_load e (callAiWithChunk e (length calls) s ?b) = None
                       then out = Resolved parse_error
                       else out = Resolved parse_error \<or> out = OutsideModel"
          by (auto simp: Let_def)
        have resp: "response_of e (calls @ [(s, ?b)]) (length calls) = callAiWithChunk e (length calls) s ?b"
          by (rule response_of_last)
        show ?thesis unfolding settled_def r c1
        proof (intro allI impI)
          fix i
          assume a: "length calls \<le> i \<and> i < length (calls @ [(s, ?b)]) \<and>
            (adapter_failed e (calls @ [(s, ?b)]) i \<or> unparsable e (calls @ [(s, ?b)]) i)"
          then have i: "i = length calls" by simp
          from a o show "Suc i = length (calls @ [(s, ?b)]) \<and>
             Inl out = Inl (Resolved (if adapter_failed e (calls @ [(s, ?b)]) i
                                      then response_of e (calls @ [(s, ?b)]) i else parse_error))"
            unfolding i by (auto simp: adapter_failed_def unparsable_def resp split: if_splits)
        qed
      qed
    next
      case (Go main1 chunk1 calls1)
      with "1.prems" False have r: "fix_chunk_loop e parts main1 chunk1 calls1 ?r = (res, calls')"
        by (simp add: fix_chunk_loop_unfold)
      from chunk_pass_Go [OF Go] obtain s where c1: "calls1 = calls @ [(s, ?b)]"
        and ok: "\<not> startsWith (callAiWithChunk e (length calls) s ?b) failure_prefix"
                "yaml_load e (callAiWithChunk e (length calls) s ?b) = Some chunk1"
        by auto
      from False have "length ?r < length issues" by (simp add: CHUNK_SIZE_def)
      with "1.IH" r have st: "settled e (length calls1) calls' res" by blast
      from fix_chunk_loop_calls [OF r] obtain new where n: "calls' = calls1 @ new" by blast
      have "settled e (length calls) (calls1 @ new) res"
      proof (rule settled_extend)
        from st n show "settled e (length calls1) (calls1 @ new) res" by simp
      next
        fix i
        assume "length calls \<le> i" "i < length calls1"
        with c1 have i: "i = length calls" by simp
        have "response_of e calls1 i = callAiWithChunk e (length calls) s ?b"
          unfolding i c1 by (rule response_of_last)
        with ok show "\<not> adapter_failed e calls1 i \<and> \<not> unparsable e calls1 i"
          by (simp add: adapter_failed_def unparsable_def)
      qed
      with n show ?thesis by simp
    qed
  qed
qed


lemma failure_texts:
  "startsWith critical_error failure_prefix \<and> startsWith parse_error failure_prefix"
  by code_simp

lemma fix_chunk_loop_outcome:
  "fix_chunk_loop e parts main chunk calls issues = (Inl (Resolved t), calls') \<Longrightarrow>
   startsWith t failure_prefix"
proof (induction issues arbitrary: main chunk calls rule: length_induct)
  case (1 issues)
  show ?case
  proof (cases "issues = []")
    case True
    with "1.prems" show ?thesis by (simp add: fix_chunk_loop_unfold)
  next
    case False
    let ?b = "take CHUNK_SIZE issues"
    let ?r = "drop CHUNK_SIZE issues"
    show ?thesis
    proof (cases "chunk_pass e parts main chunk calls ?b")
      case (Stop out calls1)
      with "1.prems" False have r: "out = Resolved t" by (simp add: fix_chunk_loop_unfold)
      from chunk_pass_Stop [OF Stop] r failure_texts show ?thesis
        by (auto simp: Let_def split: if_splits)
    next
      case (Go main1 chunk1 calls1)
      with "1.prems" False
      have r: "fix_chunk_loop e parts main1 chunk1 calls1 ?r = (Inl (Resolved t), calls')"
        by (simp add: fix_chunk_loop_unfold)
      from False have "length ?r < length issues" by (simp add: CHUNK_SIZE_def)
      with "1.IH" r show ?thesis by blast
    qed
  qed
qed
section \<open>The example runs\<close>

lemma run_down_info:
  "getAiFixes env_down sample_text \<lparr>warnings = [], errors = [info_issue]\<rparr> =
     (Resolved down_text, [(''{info: {title: Shop}}'', [info_issue])])"
  by code_simp

lemma run_down_users:
  "getAiFixes env_down sample_text \<lparr>warnings = [], errors = [users_issue]\<rparr> =
     (Resolved down_text, [(''{/users: {get: {}}}'', [users_issue])])"
  by code_simp

lemma run_fix_components:
  "getAiFixes env_fix sample_text \<lparr>warnings = [], errors = [components_issue]\<rparr> =
     (Resolved ''{openapi: 3.0.0, info: {title: Shop}, paths: {/users: {get: {}}, /orders: {get: {}}}, components: {}}'',
      [(''{}'', [components_issue])])"
  by code_simp

lemma run_odd:
  "getAiFixes env_odd sample_text \<lparr>warnings = [info_issue], errors = [users_issue]\<rparr> =
     (Resolved ''AI fix failed: nothing to repair'', [(''{/users: {get: {}}}'', [users_issue])])"
  by code_simp

lemma sample_keys_differ: "chunk_key info_issue = ''info'' \<and> chunk_key users_issue = ''paths./users''"
  by code_simp

lemma components_absent: "\<not> resolves sample_doc (chunk_key components_issue)"
  by code_simp

lemma down_failed: "adapter_failed env_down [(''{info: {title: Shop}}'', [info_issue])] 0"
  by code_simp

lemma validate_empty:
  "validate getAiFixes_index env_fix sample_text ''[]'' '''' =
     (Response 200 (Report \<lparr>warnings = [], errors = []\<rparr> ''No issues found. Original YAML is valid.''), [])"
  by code_simp

lemma run_down_index:
  "getAiFixes_index env_down sample_text \<lparr>warnings = [], errors = [info_issue]\<rparr> =
     (Resolved down_text, [(sample_text, [info_issue])])"
  by code_simp

lemma down_failed_index:
  "startsWith (response_of_index env_down [(sample_text, [info_issue])] 0) failure_prefix"
  by code_simp

section \<open>Facts about the loop of index.js\<close>

lemma fix_loop_index_unfold:
  "fix_loop_index e currentYaml calls allIssues =
     (if allIssues = [] then (Finished, currentYaml, calls)
      else if startsWith (callAiWithChunk_index e (length calls) currentYaml (take CHUNK_SIZE allIssues))
                failure_prefix
           then (Stopped, callAiWithChunk_index e (length calls) currentYaml (take CHUNK_SIZE allIssues),
                 calls @ [(currentYaml, take CHUNK_SIZE allIssues)])
           else fix_loop_index e
                  (callAiWithChunk_index e (length calls) currentYaml (take CHUNK_SIZE allIssues))
                  (calls @ [(currentYaml, take CHUNK_SIZE allIssues)])
                  (drop CHUNK_SIZE allIssues))"
  by (subst fix_loop_index.simps) (simp add: Let_def)

declare fix_loop_index.simps [simp del]

lemma response_of_index_append:
  "i < length calls \<Longrightarrow> response_of_index e (calls @ new) i = response_of_index e calls i"
  by (simp add: response_of_index_def nth_append)

lemma response_of_index_last:
  "response_of_index e (calls @ (s, b) # new) (length calls) = callAiWithChunk_index e (length calls) s b"
  by (simp add: response_of_index_def nth_append)

lemma fix_loop_index_run:
  "fix_loop_index e currentYaml calls allIssues = (en, out, calls') \<Longrightarrow>
   (\<exists>new. calls' = calls @ new \<and> (\<exists>rest. splice_chunks allIssues = map snd new @ rest)) \<and>
   (\<forall>i. length calls \<le> i \<and> i < length calls' \<and>
        startsWith (response_of_index e calls' i) failure_prefix \<longrightarrow>
        Suc i = length calls' \<and> out = response_of_index e calls' i)"
proof (induction allIssues arbitrary: currentYaml calls rule: length_induct)
  case (1 allIssues)
  show ?case
  proof (cases "allIssues = []")
    case True
    from "1.prems" have "out = currentYaml" "calls' = calls"
      by (subst (asm) fix_loop_index_unfold, simp add: True)+
    then show ?thesis by (auto simp: True splice_chunks_Nil)
  next
    case False
    let ?b = "take CHUNK_SIZE allIssues"
    let ?r = "callAiWithChunk_index e (length calls) currentYaml ?b"
    let ?c = "calls @ [(currentYaml, ?b)]"
    from False have sc: "splice_chunks allIssues = ?b # splice_chunks (drop CHUNK_SIZE allIssues)"
      by (rule splice_chunks_step)
    have resp: "response_of_index e (calls @ (currentYaml, ?b) # new) (length calls) = ?r" for new
      by (rule response_of_index_last)
    show ?thesis
    proof (cases "startsWith ?r failure_prefix")
      case True
      from "1.prems" have o: "out = ?r" "calls' = ?c"
        by (subst (asm) fix_loop_index_unfold, simp add: True False)+
      have "\<forall>i. length calls \<le> i \<and> i < length ?c \<and>
                startsWith (response_of_index e ?c i) failure_prefix \<longrightarrow>
                Suc i = length ?c \<and> ?r = response_of_index e ?c i"
      proof (intro allI impI)
        fix i
        assume "length calls \<le> i \<and> i < length ?c \<and> startsWith (response_of_index e ?c i) failure_prefix"
        then have "i = length calls" by simp
        then show "Suc i = length ?c \<and> ?r = response_of_index e ?c i"
          using resp [of "[]"] by simp
      qed
      then have sett: "\<forall>i. length calls \<le> i \<and> i < length calls' \<and>
                startsWith (response_of_index e calls' i) failure_prefix \<longrightarrow>
                Suc i = length calls' \<and> out = response_of_index e calls' i"
        by (simp only: o)
      have "calls' = calls @ [(currentYaml, ?b)] \<and>
            splice_chunks allIssues = map snd [(currentYaml, ?b)] @ splice_chunks (drop CHUNK_SIZE allIssues)"
        by (simp only: o sc) simp
      then have "\<exists>new. calls' = calls @ new \<and> (\<exists>rest. splice_chunks allIssues = map snd new @ rest)"
        by (intro exI conjI) (erule conjunct1, erule conjunct2)
      from this sett show ?thesis by (rule conjI)
    next
      case nf: False
      from "1.prems"
      have r: "fix_loop_index e ?r ?c (drop CHUNK_SIZE allIssues) = (en, out, calls')"
        by (subst (asm) fix_loop_index_unfold) (simp add: nf False)
      from False have "length (drop CHUNK_SIZE allIssues) < length allIssues"
        by (simp add: CHUNK_SIZE_def)
      with "1.IH" r obtain new where n: "calls' = ?c @ new"
        and p: "\<exists>rest. splice_chunks (drop CHUNK_SIZE allIssues) = map snd new @ rest"
        and s: "\<forall>i. length ?c \<le> i \<and> i < length calls' \<and>
                  startsWith (response_of_index e calls' i) failure_prefix \<longrightarrow>
                  Suc i = length calls' \<and> out = response_of_index e calls' i"
        by blast
      from n have n': "calls' = calls @ (currentYaml, ?b) # new" by simp
      have sett: "\<forall>i. length calls \<le> i \<and> i < length calls' \<and>
                startsWith (response_of_index e calls' i) failure_prefix \<longrightarrow>
                Suc i = length calls' \<and> out = response_of_index e calls' i"
      proof (intro allI impI)
        fix i
        assume a: "length calls \<le> i \<and> i < length calls' \<and>
                   startsWith (response_of_index e calls' i) failure_prefix"
        show "Suc i = length calls' \<and> out = response_of_index e calls' i"
        proof (cases "i = length calls")
          case True
          with a nf resp [of new] n' show ?thesis by simp
        next
          case False
          with a have "length ?c \<le> i" by simp
          with a s show ?thesis by blast
        qed
      qed
      from p obtain rest where "splice_chunks (drop CHUNK_SIZE allIssues) = map snd new @ rest" ..
      then have "splice_chunks allIssues = map snd ((currentYaml, ?b) # new) @ rest"
        by (simp add: sc)
      with n' have "\<exists>new. calls' = calls @ new \<and> (\<exists>rest. splice_chunks allIssues = map snd new @ rest)"
        by (intro exI conjI)
      from this sett show ?thesis by (rule conjI)
    qed
  qed
qed

lemma fix_loop_index_ending:
  "fix_loop_index e currentYaml calls allIssues = (en, out, calls') \<Longrightarrow>
   (en = Stopped \<longrightarrow>
      length calls < length calls' \<and>
      startsWith (response_of_index e calls' (length calls' - 1)) failure_prefix \<and>
      out = response_of_index e calls' (length calls' - 1)) \<and>
   (en = Finished \<longrightarrow>
      length calls \<le> length calls' \<and>
      splice_chunks allIssues = map snd (drop (length calls) calls') \<and>
      (calls' = calls \<longrightarrow> out = currentYaml) \<and>
      (length calls < length calls' \<longrightarrow> out = response_of_index e calls' (length calls' - 1)))"
proof (induction allIssues arbitrary: currentYaml calls rule: length_induct)
  case (1 allIssues)
  show ?case
  proof (cases "allIssues = []")
    case True
    from "1.prems" have "en = Finished" "out = currentYaml" "calls' = calls"
      by (subst (asm) fix_loop_index_unfold, simp add: True)+
    then show ?thesis by (simp add: True splice_chunks_Nil)
  next
    case False
    let ?b = "take CHUNK_SIZE allIssues"
    let ?r = "callAiWithChunk_index e (length calls) currentYaml ?b"
    let ?c = "calls @ [(currentYaml, ?b)]"
    from False have sc: "splice_chunks allIssues = ?b # splice_chunks (drop CHUNK_SIZE allIssues)"
      by (rule splice_chunks_step)
    show ?thesis
    proof (cases "startsWith ?r failure_prefix")
      case True
      from "1.prems" have o: "en = Stopped" "out = ?r" "calls' = ?c"
        by (subst (asm) fix_loop_index_unfold, simp add: True False)+
      have "response_of_index e ?c (length calls) = ?r"
        using response_of_index_last [of e calls currentYaml ?b "[]"] by simp
      with True show ?thesis by (simp add: o)
    next
      case nf: False
      from "1.prems"
      have r: "fix_loop_index e ?r ?c (drop CHUNK_SIZE allIssues) = (en, out, calls')"
        by (subst (asm) fix_loop_index_unfold) (simp add: nf False)
      from False have "length (drop CHUNK_SIZE allIssues) < length allIssues"
        by (simp add: CHUNK_SIZE_def)
      with "1.IH" r
      have ih: "(en = Stopped \<longrightarrow>
                   length ?c < length calls' \<and>
                   startsWith (response_of_index e calls' (length calls' - 1)) failure_prefix \<and>
                   out = response_of_index e calls' (length calls' - 1)) \<and>
                (en = Finished \<longrightarrow>
                   length ?c \<le> length calls' \<and>
                   splice_chunks (drop CHUNK_SIZE allIssues) = map snd (drop (length ?c) calls') \<and>
                   (calls' = ?c \<longrightarrow> out = ?r) \<and>
                   (length ?c < length calls' \<longrightarrow> out = response_of_index e calls' (length calls' - 1)))"
        by blast
      from fix_loop_index_run [OF r] obtain new where n: "calls' = ?c @ new" by blast
      then have n': "calls' = calls @ (currentYaml, ?b) # new" by simp
      have d: "drop (length calls) calls' = (currentYaml, ?b) # new" by (simp add: n')
      have d': "drop (Suc (length calls)) calls' = new" by (simp add: n)
      have last: "new = [] \<Longrightarrow> response_of_index e calls' (length calls' - 1) = ?r"
        using response_of_index_last [of e calls currentYaml ?b "[]"] by (simp add: n)
      show ?thesis
      proof (cases en)
        case Stopped
        with ih show ?thesis by simp
      next
        case Finished
        with ih have f: "splice_chunks (drop CHUNK_SIZE allIssues) = map snd new"
          and g: "calls' = ?c \<longrightarrow> out = ?r"
          and h: "length ?c < length calls' \<longrightarrow> out = response_of_index e calls' (length calls' - 1)"
          by (simp_all add: d')
        have "out = response_of_index e calls' (length calls' - 1)"
        proof (cases "new = []")
          case True
          with n g last show ?thesis by simp
        next
          case False
          with n h show ?thesis by simp
        qed
        with f show ?thesis by (simp add: Finished sc d n')
      qed
    qed
  qed
qed

lemma fix_loop_index_Finished:
  "fix_loop_index e currentYaml calls allIssues = (Finished, out, calls') \<Longrightarrow>
   \<forall>i. length calls \<le> i \<and> i < length calls' \<longrightarrow>
       \<not> startsWith (response_of_index e calls' i) failure_prefix"
proof (induction allIssues arbitrary: currentYaml calls rule: length_induct)
  case (1 allIssues)
  show ?case
  proof (cases "allIssues = []")
    case True
    from "1.prems" have "calls' = calls"
      by (subst (asm) fix_loop_index_unfold) (simp add: True)
    then show ?thesis by auto
  next
    case False
    let ?b = "take CHUNK_SIZE allIssues"
    let ?r = "callAiWithChunk_index e (length calls) currentYaml ?b"
    let ?c = "calls @ [(currentYaml, ?b)]"
    have nf: "\<not> startsWith ?r failure_prefix"
    proof
      assume "startsWith ?r failure_prefix"
      with "1.prems" False show False
        by (subst (asm) fix_loop_index_unfold) simp
    qed
    from "1.prems"
    have r: "fix_loop_index e ?r ?c (drop CHUNK_SIZE allIssues) = (Finished, out, calls')"
      by (subst (asm) fix_loop_index_unfold) (simp add: nf False)
    from False have "length (drop CHUNK_SIZE allIssues) < length allIssues"
      by (simp add: CHUNK_SIZE_def)
    with "1.IH" r
    have ih: "\<forall>i. length ?c \<le> i \<and> i < length calls' \<longrightarrow>
                \<not> startsWith (response_of_index e calls' i) failure_prefix"
      by blast
    from fix_loop_index_run [OF r] obtain new where n: "calls' = ?c @ new" by blast
    then have n': "calls' = calls @ (currentYaml, ?b) # new" by simp
    have first: "response_of_index e calls' (length calls) = ?r"
      unfolding n' by (rule response_of_index_last)
    show ?thesis
    proof (intro allI impI)
      fix i
      assume a: "length calls \<le> i \<and> i < length calls'"
      show "\<not> startsWith (response_of_index e calls' i) failure_prefix"
      proof (cases "i = length calls")
        case True
        with first nf show ?thesis by simp
      next
        case False
        with a have "length ?c \<le> i" by simp
        with a ih show ?thesis by blast
      qed
    qed
  qed
qed

lemma getAiFixes_index_run:
  assumes "getAiFixes_index e text issues = (out, calls)"
  shows "(\<exists>rest. splice_chunks (errors issues @ warnings issues) = map snd calls @ rest) \<and>
         (\<forall>i < length calls. startsWith (response_of_index e calls i) failure_prefix \<longrightarrow>
            Suc i = length calls \<and> out = Resolved (response_of_index e calls i))"
proof (cases "GROQ_API_KEY e = None \<or> GROQ_API_KEY e = Some []")
  case True
  with assms show ?thesis by (auto simp: getAiFixes_index_def)
next
  case False
  with assms obtain en t where r: "fix_loop_index e text [] (errors issues @ warnings issues) = (en, t, calls)"
    and o: "out = Resolved t"
    by (auto simp: getAiFixes_index_def split: prod.splits)
  from fix_loop_index_run [OF r] o show ?thesis by auto
qed
section \<open>Properties\<close>

lemma severity_label_table:
  "severity_label n =
     (if n = 0 then ''error''
      else if n = 1 then ''warn''
      else if n = 2 then ''info''
      else if n = 3 then ''hint''
      else ''unknown'')"
  by (simp add: severity_label_def severityMap_def)

lemma severity_label_error: "severity_label n = ''error'' \<longleftrightarrow> n = 0"
  by (simp add: severity_label_table)

lemma severity_label_warn: "severity_label n = ''warn'' \<longleftrightarrow> n = 1"
  by (simp add: severity_label_table)

lemma format_item_label: "format_item item = Some i \<Longrightarrow> i_severity i = severity_label (severity item)"
  by (auto simp: format_item_def split: option.splits)

lemma summary_loop_run:
  "summary_loop st results = Some st' \<Longrightarrow>
   issueList st' = issueList st @ map (the \<circ> format_item) results \<and>
   errorCount st' = errorCount st + length (filter (\<lambda>item. severity item = 0) results) \<and>
   warningCount st' = warningCount st + length (filter (\<lambda>item. severity item = 1) results)"
proof (induction results arbitrary: st)
  case Nil
  then show ?case by simp
next
  case (Cons item results)
  from Cons.prems obtain i where i: "format_item item = Some i"
    by (auto simp: Let_def split: option.splits)
  show ?case
  proof (cases "severity item = 0")
    case True
    with Cons.prems i
    have "summary_loop (st\<lparr>errorCount := errorCount st + 1, issueList := issueList st @ [i]\<rparr>) results = Some st'"
      by (simp add: Let_def severity_label_error)
    from Cons.IH [OF this] i True show ?thesis by simp
  next
    case z: False
    show ?thesis
    proof (cases "severity item = 1")
      case True
      with Cons.prems i
      have "summary_loop (st\<lparr>warningCount := warningCount st + 1, issueList := issueList st @ [i]\<rparr>) results = Some st'"
        by (simp add: Let_def severity_label_error severity_label_warn)
      from Cons.IH [OF this] i True show ?thesis by simp
    next
      case False
      with Cons.prems i z
      have "summary_loop (st\<lparr>issueList := issueList st @ [i]\<rparr>) results = Some st'"
        by (simp add: Let_def severity_label_error severity_label_warn)
      from Cons.IH [OF this] i z False show ?thesis by simp
    qed
  qed
qed

lemma format_loop_run:
  "\<forall>item \<in> set results. path item \<noteq> None \<Longrightarrow>
   format_loop formatted results =
     Some \<lparr> warnings = warnings formatted @
                         map (the \<circ> newItem) (filter (\<lambda>item. severity item = 1) results),
            errors = errors formatted @
                       map (the \<circ> newItem) (filter (\<lambda>item. severity item \<noteq> 1) results) \<rparr>"
proof (induction results arbitrary: formatted)
  case Nil
  then show ?case by simp
next
  case (Cons item results)
  from Cons.prems obtain n where n: "newItem item = Some n"
    by (auto simp: newItem_def split: option.splits)
  from Cons.prems have "\<forall>item \<in> set results. path item \<noteq> None" by simp
  from Cons.IH [OF this] n show ?case by simp
qed

text \<open>
  C6, as the code has it: the drafts of \<open>formatSpectralOutput\<close> that report a summary map the numeric
  severity code of every raw issue to a label through the fixed table 0 to error, 1 to
  warn, 2 to info, 3 to hint, and every other number to unknown: each issue of the result
  carries the label of its item, and the two counters count the items of severity 0 and 1.
  The \<open>formatSpectralOutput\<close> of index.js has no table and attaches no label: an item of
  severity 1 is put in the list \<open>warnings\<close> and an item of any other severity in the list
  \<open>errors\<close>.
\<close>

theorem C6_severity_table:
  "severity_label n =
     (if n = 0 then ''error''
      else if n = 1 then ''warn''
      else if n = 2 then ''info''
      else if n = 3 then ''hint''
      else ''unknown'') \<and>
   (format_item item = Some i \<longrightarrow> i_severity i = severity_label (severity item)) \<and>
   (parse stdout = Some results \<and>
    formatSpectralOutput_summary parse stdout = Summary status errs warns n_total listed \<longrightarrow>
      mset listed = mset (map (the \<circ> format_item) results) \<and>
      (\<forall>item \<in> set results. \<exists>i. format_item item = Some i) \<and>
      errs = length (filter (\<lambda>item. severity item = 0) results) \<and>
      warns = length (filter (\<lambda>item. severity item = 1) results)) \<and>
   (parse stdout = Some results \<and> (\<forall>item \<in> set results. path item \<noteq> None) \<longrightarrow>
      formatSpectralOutput parse stdout =
        \<lparr> warnings = map (the \<circ> newItem) (filter (\<lambda>item. severity item = 1) results),
          errors = map (the \<circ> newItem) (filter (\<lambda>item. severity item \<noteq> 1) results) \<rparr>)"
proof (intro conjI impI)
  show "severity_label n =
     (if n = 0 then ''error'' else if n = 1 then ''warn'' else if n = 2 then ''info''
      else if n = 3 then ''hint'' else ''unknown'')"
    by (rule severity_label_table)
next
  assume "format_item item = Some i"
  then show "i_severity i = severity_label (severity item)" by (rule format_item_label)
next
  assume a: "parse stdout = Some results \<and>
    formatSpectralOutput_summary parse stdout = Summary status errs warns n_total listed"
  then obtain st where st: "summary_loop \<lparr> errorCount = 0, warningCount = 0, issueList = [] \<rparr> results = Some st"
    and s: "listed = sort_key i_line (issueList st)"
    and e: "errs = errorCount st" and w: "warns = warningCount st"
    by (auto simp: formatSpectralOutput_summary_def split: option.splits)
  from summary_loop_run [OF st] s e w
  show "mset listed = mset (map (the \<circ> format_item) results)"
    and "errs = length (filter (\<lambda>item. severity item = 0) results)"
    and "warns = length (filter (\<lambda>item. severity item = 1) results)"
    by simp_all
  have "summary_loop st0 rs = Some st1 \<Longrightarrow> \<forall>item \<in> set rs. \<exists>i. format_item item = Some i"
    for st0 st1 rs
    by (induction rs arbitrary: st0) (auto simp: Let_def split: option.splits)
  from this [OF st] show "\<forall>item \<in> set results. \<exists>i. format_item item = Some i" .
next
  assume "parse stdout = Some results \<and> (\<forall>item \<in> set results. path item \<noteq> None)"
  then show "formatSpectralOutput parse stdout =
        \<lparr> warnings = map (the \<circ> newItem) (filter (\<lambda>item. severity item = 1) results),
          errors = map (the \<circ> newItem) (filter (\<lambda>item. severity item \<noteq> 1) results) \<rparr>"
    by (simp add: formatSpectralOutput_def format_loop_run)
qed

theorem C6_severity_table_witness:
  "severity_parse (severity_text 2) = Some [severity_raw 2] \<and>
   severity (severity_raw 2) = 2 \<and>
   path (severity_raw 2) = Some [''info''] \<and>
   format_item (severity_raw 2) =
     Some \<lparr> i_severity = ''info'', i_rule = ''info-contact'',
            i_message = ''Info object must have contact object.'', i_path = ''info'',
            i_line = 2, i_character = 6 \<rparr> \<and>
   formatSpectralOutput_summary severity_parse (severity_text 2) =
     Summary ''valid'' 0 0 1
       [\<lparr> i_severity = ''info'', i_rule = ''info-contact'',
           i_message = ''Info object must have contact object.'', i_path = ''info'',
           i_line = 2, i_character = 6 \<rparr>] \<and>
   severity_label 2 = ''info'' \<and>
   mset [\<lparr> i_severity = ''info'', i_rule = ''info-contact'',
           i_message = ''Info object must have contact object.'', i_path = ''info'',
           i_line = 2, i_character = 6 \<rparr>] = mset (map (the \<circ> format_item) [severity_raw 2]) \<and>
   formatSpectralOutput severity_parse (severity_text 2) =
     \<lparr> warnings = [],
       errors = [\<lparr> title = ''info-contact'', description = ''Info object must have contact object.'',
                  element = ''info'' \<rparr>] \<rparr>"
proof -
  let ?i = "\<lparr> i_severity = ''info'', i_rule = ''info-contact'',
            i_message = ''Info object must have contact object.'', i_path = ''info'',
            i_line = 2, i_character = 6 \<rparr>"
  have p: "severity_parse (severity_text 2) = Some [severity_raw 2]" by code_simp
  have v: "severity (severity_raw 2) = 2" by (simp add: severity_raw_def)
  have f: "format_item (severity_raw 2) = Some ?i" by code_simp
  have s: "formatSpectralOutput_summary severity_parse (severity_text 2) = Summary ''valid'' 0 0 1 [?i]"
    by code_simp
  have q: "\<forall>item \<in> set [severity_raw 2]. path item \<noteq> None"
    by (simp add: severity_raw_def sample_raw_def)
  have n: "newItem (severity_raw 2) =
     Some \<lparr> title = ''info-contact'', description = ''Info object must have contact object.'',
            element = ''info'' \<rparr>" by code_simp
  note t = C6_severity_table [of 2 "severity_raw 2" ?i severity_parse
         "severity_text 2" "[severity_raw 2]" "''valid''" 0 0 1 "[?i]"]
  from t have "severity_label 2 =
     (if (2::int) = 0 then ''error'' else if (2::int) = 1 then ''warn'' else if (2::int) = 2 then ''info''
      else if (2::int) = 3 then ''hint'' else ''unknown'')" by (rule conjunct1)
  then have l: "severity_label 2 = ''info''" by simp
  from t p q have "formatSpectralOutput severity_parse (severity_text 2) =
        \<lparr> warnings = map (the \<circ> newItem) (filter (\<lambda>item. severity item = 1) [severity_raw 2]),
          errors = map (the \<circ> newItem) (filter (\<lambda>item. severity item \<noteq> 1) [severity_raw 2]) \<rparr>"
    by blast
  with v n have o: "formatSpectralOutput severity_parse (severity_text 2) =
     \<lparr> warnings = [],
       errors = [\<lparr> title = ''info-contact'', description = ''Info object must have contact object.'',
                  element = ''info'' \<rparr>] \<rparr>" by simp
  have q': "path (severity_raw 2) = Some [''info'']" by (simp add: severity_raw_def sample_raw_def)
  from t p s have m: "mset [?i] = mset (map (the \<circ> format_item) [severity_raw 2])" by blast
  from p v q' f s l m o show ?thesis by (intro conjI)
qed

text \<open>
  The claim C6 as stated fails for index.js: the items of severity 2 and 7, which the
  table labels info and unknown, give the output of the item of severity 0, in the list
  \<open>errors\<close> and without a label.
\<close>

theorem C6_counterexample:
  "severity_parse (severity_text 2) = Some [severity_raw 2] \<and>
   severity_parse (severity_text 0) = Some [severity_raw 0] \<and>
   severity_parse (severity_text 7) = Some [severity_raw 7] \<and>
   severity (severity_raw 2) = 2 \<and> severity_label 2 = ''info'' \<and> severity_label 7 = ''unknown'' \<and>
   formatSpectralOutput severity_parse (severity_text 2) =
     \<lparr> warnings = [],
       errors = [\<lparr> title = ''info-contact'', description = ''Info object must have contact object.'',
                  element = ''info'' \<rparr>] \<rparr> \<and>
   formatSpectralOutput severity_parse (severity_text 2) = formatSpectralOutput severity_parse (severity_text 0) \<and>
   formatSpectralOutput severity_parse (severity_text 7) = formatSpectralOutput severity_parse (severity_text 0)"
  by code_simp

lemma Partitioner_batches:
  "\<forall>(key, batch) \<in> set (Partitioner allIssues).
       length batch \<le> CHUNK_SIZE \<and> batch \<noteq> [] \<and> (\<forall>i \<in> set batch. chunk_key i = key)"
proof (cases "errorsByChunkKey allIssues")
  case (Inl err)
  then show ?thesis by (simp add: Partitioner_thrown)
next
  case (Inr groups)
  from errorsByChunkKey_Inr [OF Inr] have g: "grouped groups" by simp
  have "length batch \<le> CHUNK_SIZE \<and> batch \<noteq> [] \<and> (\<forall>i \<in> set batch. chunk_key i = key)"
    if "(key, batch) \<in> set (Partitioner allIssues)" for key batch
  proof -
    from that obtain xs where xs: "(key, xs) \<in> set groups"
      and b: "batch \<in> set (splice_chunks xs)"
      by (auto simp: Partitioner_Inr [OF Inr])
    from g xs have "\<forall>i \<in> set xs. chunk_key i = key" by (auto simp: grouped_def)
    with splice_chunks_bound [OF b] show ?thesis by blast
  qed
  then show ?thesis by auto
qed

lemma Partitioner_props:
  assumes "plain_keys allIssues"
  shows "mset (concat (map snd (Partitioner allIssues))) = mset allIssues \<and>
   (\<forall>(key, batch) \<in> set (Partitioner allIssues).
       length batch \<le> CHUNK_SIZE \<and> batch \<noteq> [] \<and> (\<forall>i \<in> set batch. chunk_key i = key))"
proof -
  from errorsByChunkKey_plain [OF assms] obtain groups where g: "errorsByChunkKey allIssues = Inr groups"
    by simp
  from errorsByChunkKey_Inr [OF g] concat_Partitioner [OF g]
  have "mset (concat (map snd (Partitioner allIssues))) = mset allIssues" by simp
  with Partitioner_batches [of allIssues] show ?thesis by simp
qed

lemma Partitioner_covers:
  assumes "plain_keys allIssues" and "i \<in> set allIssues"
  shows "\<exists>batch. (chunk_key i, batch) \<in> set (Partitioner allIssues) \<and> i \<in> set batch"
proof -
  from Partitioner_props [OF assms(1)] assms(2)
  have "i \<in># mset (concat (map snd (Partitioner allIssues)))" by simp
  then have "i \<in> set (concat (map snd (Partitioner allIssues)))" by simp
  then obtain key batch where kb: "(key, batch) \<in> set (Partitioner allIssues)" and i: "i \<in> set batch"
    by auto
  with Partitioner_batches [of allIssues] have "chunk_key i = key" by blast
  with kb i show ?thesis by blast
qed

lemma Partitioner_plain:
  assumes "plain_keys allIssues"
  shows "(\<exists>groups. errorsByChunkKey allIssues = Inr groups \<and> distinct (map fst groups)) \<and>
   mset (concat (map snd (Partitioner allIssues))) = mset allIssues \<and>
   (\<forall>(key, batch) \<in> set (Partitioner allIssues).
       length batch \<le> CHUNK_SIZE \<and> batch \<noteq> [] \<and> (\<forall>i \<in> set batch. chunk_key i = key))"
proof -
  from errorsByChunkKey_plain [OF assms] obtain groups where g: "errorsByChunkKey allIssues = Inr groups"
    by simp
  from errorsByChunkKey_Inr [OF g] g
  have "\<exists>groups. errorsByChunkKey allIssues = Inr groups \<and> distinct (map fst groups)" by simp
  with Partitioner_props [OF assms] show ?thesis by simp
qed

lemma splice_chunks_whole:
  "concat (splice_chunks allIssues) = allIssues \<and>
   (\<forall>batch \<in> set (splice_chunks allIssues). length batch \<le> CHUNK_SIZE) \<and> CHUNK_SIZE = 5"
  using splice_chunks_bound [of _ allIssues] by (auto simp: concat_splice_chunks CHUNK_SIZE_def)

lemma Partitioner_orders_issues:
  "Partitioner orders_issues =
     [(''paths./orders'', map sample_issue [''paths./orders.get'', ''paths./orders.get.summary'',
          ''paths./orders.post'', ''paths./orders.post.tags'', ''paths./orders.put'']),
      (''paths./orders'', map sample_issue [''paths./orders.delete'', ''paths./orders'']),
      (''info'', [sample_issue ''info.contact''])]"
  by code_simp

text \<open>
  C2 does not hold of the draft that repairs by regions. The groups are collected in an
  object literal, so a key that names a member of \<open>Object.prototype\<close> is found in the empty
  accumulator: for an issue located at a top-level property \<open>constructor\<close> of the document
  the callback of \<open>reduce\<close> throws, the loops get no chunk at all, every issue of the list is
  dropped, the one at \<open>info\<close> too, and the run ends with the text of the outer \<open>catch\<close>
  without a request. The chunks index.js cuts from the same list hold every issue once.
\<close>

theorem C2_prototype_key_drops_issues:
  "chunk_key constructor_issue = ''constructor'' \<and>
   errorsByChunkKey [info_issue, constructor_issue] = Inl TypeError \<and>
   Partitioner [info_issue, constructor_issue] = [] \<and>
   mset (concat (map snd (Partitioner [info_issue, constructor_issue]))) \<noteq>
     mset [info_issue, constructor_issue] \<and>
   getAiFixes env_fix sample_text \<lparr>warnings = [], errors = [info_issue, constructor_issue]\<rparr> =
     (Resolved ''AI fix failed: A critical error occurred while processing the YAML.'', []) \<and>
   concat (splice_chunks [info_issue, constructor_issue]) = [info_issue, constructor_issue]"
  by code_simp





lemma proto_setter_hit_single: "obj_get qs k = Some v \<Longrightarrow> \<not> proto_setter_hit qs [(k, v)]"
  by (auto simp: proto_setter_hit_def obj_get_def)


lemma obj_modify_get:
  "obj_get ps k = Some b \<Longrightarrow> obj_get (obj_modify k f ps) k = Some (f b)"
  by (simp add: obj_get_def map_of_obj_modify)



text \<open>
  C4: for a key that resolves in the document, the chunk extracted for it, merged back
  as it is, gives the document again.
\<close>

theorem C4_extract_merge_roundtrip:
  assumes "resolves main key"
  shows "\<exists>chunk. extract_chunk main key = Inr chunk \<and> merge_chunk main (split_dot key) chunk = Inr main"
proof -
  from assms obtain ps where main: "main = YObj ps" by (auto simp: resolves_def split: yval.splits)
  show ?thesis
  proof (cases "length (split_dot key) > 1")
    case True
    with assms main obtain qs v where qs: "obj_get ps ''paths'' = Some (YObj qs)"
      and v: "obj_get qs (split_dot key ! 1) = Some v"
      by (auto simp: resolves_def split: option.splits yval.splits)
    have "obj_set (split_dot key ! 1) v qs = qs" using v by (rule obj_set_same)
    moreover have "obj_modify ''paths'' (\<lambda>_. YObj qs) ps = ps"
      using qs by (simp add: obj_get_def obj_modify_same)
    ultimately show ?thesis using True main qs v
      by (simp add: extract_chunk_def merge_chunk_def proto_setter_hit_single)
  next
    case False
    with assms main obtain v where v: "obj_get ps key = Some v"
      by (auto simp: resolves_def)
    have "obj_set key v ps = ps" using v by (rule obj_set_same)
    then show ?thesis using False main v
      by (simp add: extract_chunk_def merge_chunk_def proto_setter_hit_single)
  qed
qed

lemma obj_get_fold_obj_set:
  "obj_get (fold (\<lambda>(k, v). obj_set k v) (own_enumerable fixed) ps) k =
     (case assigned fixed k of None \<Rightarrow> obj_get ps k | Some v \<Rightarrow> Some v)"
  by (simp add: obj_get_def assigned_def map_of_fold_obj_set map_add_def split: option.splits)

lemma obj_get_obj_modify_other:
  "k' \<noteq> k \<Longrightarrow> obj_get (obj_modify k f ps) k' = obj_get ps k'"
  by (induction k f ps rule: obj_modify.induct) (auto simp: obj_get_def)


text \<open>
  On a document without shared objects a merge gives the keys of the fixed chunk the
  values the chunk has for them, at the top level or, for a key of two pieces, inside the
  mapping under \<open>paths\<close>; every other key keeps its value and its place.
\<close>

lemma merge_chunk_frame:
  assumes "merge_chunk (YObj ps) parts fixed = Inr main'"
  shows "\<exists>ps'. main' = YObj ps' \<and>
     (if length parts > 1
      then map fst ps' = map fst ps \<and>
           (\<forall>k. k \<noteq> ''paths'' \<longrightarrow> obj_get ps' k = obj_get ps k) \<and>
           (\<forall>qs. obj_get ps ''paths'' = Some (YObj qs) \<longrightarrow>
              (\<exists>qs'. obj_get ps' ''paths'' = Some (YObj qs') \<and>
                 set (map fst qs') = set (map fst qs) \<union> set (map fst (own_enumerable fixed)) \<and>
                 (\<forall>k. obj_get qs' k =
                        (case assigned fixed k of None \<Rightarrow> obj_get qs k | Some v \<Rightarrow> Some v))))
      else set (map fst ps') = set (map fst ps) \<union> set (map fst (own_enumerable fixed)) \<and>
           (\<forall>k. obj_get ps' k =
                  (case assigned fixed k of None \<Rightarrow> obj_get ps k | Some v \<Rightarrow> Some v)))"
proof (cases "length parts > 1")
  case False
  with assms have "main' = YObj (fold (\<lambda>(k, v). obj_set k v) (own_enumerable fixed) ps)"
    by (simp add: merge_chunk_def split: if_splits)
  with False show ?thesis
    by (simp add: obj_get_fold_obj_set keys_fold_obj_set del: set_map)
next
  case True
  with assms obtain p p' where p: "get_prop (YObj ps) ''paths'' = Inr p"
    and a: "object_assign p fixed = Inr p'"
    and m: "main' = YObj (obj_modify ''paths'' (\<lambda>_. p') ps)"
    by (auto simp: merge_chunk_def split: sum.splits)
  let ?ps' = "obj_modify ''paths'' (\<lambda>_. p') ps"
  have k: "\<forall>k. k \<noteq> ''paths'' \<longrightarrow> obj_get ?ps' k = obj_get ps k"
    by (simp add: obj_get_obj_modify_other)
  have q: "\<exists>qs'. obj_get ?ps' ''paths'' = Some (YObj qs') \<and>
             set (map fst qs') = set (map fst qs) \<union> set (map fst (own_enumerable fixed)) \<and>
             (\<forall>k. obj_get qs' k = (case assigned fixed k of None \<Rightarrow> obj_get qs k | Some v \<Rightarrow> Some v))"
    if qs: "obj_get ps ''paths'' = Some (YObj qs)" for qs
  proof -
    from p qs have "p = YObj qs" by simp
    with a have p': "p' = YObj (fold (\<lambda>(k, v). obj_set k v) (own_enumerable fixed) qs)"
      by (simp split: if_splits)
    from qs have "obj_get ?ps' ''paths'' = Some p'" by (rule obj_modify_get)
    then show ?thesis
      by (simp add: p' obj_get_fold_obj_set keys_fold_obj_set del: set_map)
  qed
  from True m k q show ?thesis by (simp add: map_fst_obj_modify)
qed


lemma sample_resolves: "resolves sample_doc ''paths./users''"
  by code_simp

lemma sample_extract: "extract_chunk sample_doc ''paths./users'' = Inr users_chunk"
  by code_simp


theorem C4_extract_merge_roundtrip_witness:
  "resolves sample_doc ''paths./users'' \<and>
   extract_chunk sample_doc ''paths./users'' = Inr users_chunk \<and>
   merge_chunk sample_doc (split_dot ''paths./users'') users_chunk = Inr sample_doc"
  using C4_extract_merge_roundtrip [of sample_doc "''paths./users''"]
  by (simp add: sample_resolves sample_extract)



lemma h_merge_chunk_target:
  assumes "merge_target st m parts = Some t" and "st t = Some (HObject ts)"
    and "\<not> proto_setter_hit ts (h_own_enumerable st fixed)"
  shows "h_merge_chunk st (HRef m) parts fixed =
           Inr (st(t \<mapsto> HObject (fold (\<lambda>(k, v). obj_set k v) (h_own_enumerable st fixed) ts)))"
proof (cases "length parts > 1")
  case False
  with assms(1) have "t = m" by (simp add: merge_target_def)
  with False assms(2,3) show ?thesis by (simp add: h_merge_chunk_def)
next
  case True
  with assms(1) obtain ps where ps: "st m = Some (HObject ps)" and p: "obj_get ps ''paths'' = Some (HRef t)"
    by (auto simp: merge_target_def split: option.splits hobj.splits hval.splits)
  with True assms(2,3) show ?thesis by (simp add: h_merge_chunk_def)
qed

lemma view_frame:
  assumes "\<forall>a. a \<noteq> t \<longrightarrow> st' a = st a"
  shows "\<not> reads n st v t \<Longrightarrow> view n st' v = view n st v"
proof (induction n arbitrary: v)
  case 0
  then show ?case by (cases v) simp_all
next
  case (Suc n)
  show ?case
  proof (cases v)
    case (HRef a)
    with Suc.prems have ne: "a \<noteq> t" by simp
    with assms have same: "st' a = st a" by simp
    show ?thesis
    proof (cases "st a")
      case None
      with HRef same show ?thesis by simp
    next
      case (Some ob)
      show ?thesis
      proof (cases ob)
        case (HObject ps)
        with Suc.prems HRef Some have "\<forall>(k, v) \<in> set ps. \<not> reads n st v t"
          by (auto simp: list_ex_iff)
        then have "view n st' v' = view n st v'" if "(k, v') \<in> set ps" for k v'
          using Suc.IH [of v'] that by blast
        then have "map (\<lambda>(k, v). (k, view n st' v)) ps = map (\<lambda>(k, v). (k, view n st v)) ps"
          by (intro map_cong) auto
        with HRef same Some HObject show ?thesis by simp
      next
        case (HArray xs)
        with Suc.prems HRef Some have "\<forall>v \<in> set xs. \<not> reads n st v t"
          by (auto simp: list_ex_iff)
        then have "view n st' v' = view n st v'" if "v' \<in> set xs" for v'
          using Suc.IH [of v'] that by blast
        then have "map (view n st') xs = map (view n st) xs"
          by (intro map_cong) auto
        with HRef same Some HArray show ?thesis by simp
      qed
    qed
  qed simp_all
qed

lemma map_ins_new:
  "map (\<lambda>(k, v). (k, g v)) (ins_new k v obj) = ins_new k (g v) (map (\<lambda>(k, v). (k, g v)) obj)"
  by (induction k v obj rule: ins_new.induct) auto

lemma map_obj_modify:
  "map (\<lambda>(k, v). (k, g v)) (obj_modify k (\<lambda>_. v) obj) = obj_modify k (\<lambda>_. g v) (map (\<lambda>(k, v). (k, g v)) obj)"
  by (induction obj) auto

lemma obj_get_map: "obj_get (map (\<lambda>(k, v). (k, g v)) obj) k = map_option g (obj_get obj k)"
  by (induction obj) (auto simp: obj_get_def)

lemma map_obj_set:
  "map (\<lambda>(k, v). (k, g v)) (obj_set k v obj) = obj_set k (g v) (map (\<lambda>(k, v). (k, g v)) obj)"
  by (simp add: obj_set_def obj_get_map map_ins_new map_obj_modify)

lemma map_fold_obj_set:
  "map (\<lambda>(k, v). (k, g v)) (fold (\<lambda>(k, v). obj_set k v) src obj) =
   fold (\<lambda>(k, v). obj_set k v) (map (\<lambda>(k, v). (k, g v)) src) (map (\<lambda>(k, v). (k, g v)) obj)"
  by (induction src arbitrary: obj) (auto simp: map_obj_set)

lemma proto_setter_hit_map:
  "proto_setter_hit (map (\<lambda>(k, v). (k, g v)) ps) (map (\<lambda>(k, v). (k, h v)) src) = proto_setter_hit ps src"
  by (simp add: proto_setter_hit_def obj_get_map)

lemma set_fold_obj_set:
  "set (fold (\<lambda>(k, v). obj_set k v) src obj) \<subseteq> set obj \<union> set src"
proof (induction src arbitrary: obj)
  case Nil
  then show ?case by simp
next
  case (Cons a src)
  obtain k v where a: "a = (k, v)" by (cases a)
  have "set (obj_set k v obj) \<subseteq> insert (k, v) (set obj)"
    by (auto simp: obj_set_def set_ins_new dest: set_obj_modify)
  with Cons.IH [of "obj_set k v obj"] a show ?case by auto
qed

lemma own_enumerable_view:
  "own_enumerable (view (Suc n) st fixed) =
     map (\<lambda>(k, v). (k, view n st v)) (h_own_enumerable st fixed)"
proof (cases fixed)
  case (HRef f)
  show ?thesis
  proof (cases "st f")
    case None
    with HRef show ?thesis by simp
  next
    case (Some ob)
    with HRef show ?thesis by (cases ob) (simp_all add: zip_map2)
  qed
next
  case (HStr s)
  have "view n st (HStr [c]) = YStr [c]" for c by (cases n) simp_all
  then have "map (\<lambda>c. YStr [c]) s = map (view n st) (map (\<lambda>c. HStr [c]) s)" by simp
  with HStr show ?thesis by (simp add: zip_map2 del: map_map)
qed simp_all

lemma map_modify_one:
  "distinct (map fst ps) \<Longrightarrow> obj_get ps k0 = Some v0 \<Longrightarrow>
   (\<forall>(k, v) \<in> set ps. k \<noteq> k0 \<longrightarrow> f v = g v) \<Longrightarrow> f v0 = w \<Longrightarrow>
   map (\<lambda>(k, v). (k, f v)) ps = obj_modify k0 (\<lambda>_. w) (map (\<lambda>(k, v). (k, g v)) ps)"
proof (induction ps)
  case Nil
  then show ?case by (simp add: obj_get_def)
next
  case (Cons a ps)
  obtain k v where a: "a = (k, v)" by (cases a)
  show ?case
  proof (cases "k = k0")
    case True
    with Cons.prems a have v: "v = v0" by (simp add: obj_get_def)
    from Cons.prems(1) a True have "\<forall>(k', v') \<in> set ps. k' \<noteq> k0" by force
    with Cons.prems(3) have "map (\<lambda>(k, v). (k, f v)) ps = map (\<lambda>(k, v). (k, g v)) ps"
      by (intro map_cong) auto
    with a True v Cons.prems(4) show ?thesis by simp
  next
    case False
    with Cons.prems a have "obj_get ps k0 = Some v0" by (simp add: obj_get_def)
    with Cons.IH Cons.prems a
    have "map (\<lambda>(k, v). (k, f v)) ps = obj_modify k0 (\<lambda>_. w) (map (\<lambda>(k, v). (k, g v)) ps)"
      by simp
    moreover from Cons.prems(3) a False have "f v = g v" by simp
    ultimately show ?thesis using a False by simp
  qed
qed

lemma view_fold_obj_set:
  assumes "\<forall>a. a \<noteq> t \<longrightarrow> st' a = st a"
    and "\<forall>(k, v) \<in> set ts. \<not> reads n st v t"
    and "\<forall>(k, v) \<in> set fs. \<not> reads n st v t"
  shows "map (\<lambda>(k, v). (k, view n st' v)) (fold (\<lambda>(k, v). obj_set k v) fs ts) =
         fold (\<lambda>(k, v). obj_set k v) (map (\<lambda>(k, v). (k, view n st v)) fs)
              (map (\<lambda>(k, v). (k, view n st v)) ts)"
proof -
  have "view n st' v = view n st v" if "(k, v) \<in> set (fold (\<lambda>(k, v). obj_set k v) fs ts)" for k v
  proof -
    from that set_fold_obj_set [of fs ts] have "(k, v) \<in> set ts \<union> set fs" by blast
    with assms(2,3) have "\<not> reads n st v t" by blast
    with assms(1) show ?thesis by (rule view_frame)
  qed
  then have "map (\<lambda>(k, v). (k, view n st' v)) (fold (\<lambda>(k, v). obj_set k v) fs ts) =
             map (\<lambda>(k, v). (k, view n st v)) (fold (\<lambda>(k, v). obj_set k v) fs ts)"
    by (intro map_cong) auto
  then show ?thesis by (simp only: map_fold_obj_set)
qed

text \<open>
  Where the target of a merge is read at its own place only, the document after the merge
  on the store reads as the merge of the trees gives it.
\<close>

lemma h_merge_view_top:
  assumes "length parts \<le> 1" and "st m = Some (HObject ps)"
    and "\<not> proto_setter_hit ps (h_own_enumerable st fixed)"
    and "\<forall>(k, v) \<in> set ps. \<not> reads n st v m"
    and "\<forall>(k, v) \<in> set (h_own_enumerable st fixed). \<not> reads n st v m"
  shows "h_merge_view (Suc n) st (HRef m) parts fixed =
         merge_chunk (view (Suc n) st (HRef m)) parts (view (Suc n) st fixed)"
proof -
  let ?fs = "h_own_enumerable st fixed"
  let ?ts' = "fold (\<lambda>(k, v). obj_set k v) ?fs ps"
  let ?st' = "st(m \<mapsto> HObject ?ts')"
  let ?g = "\<lambda>(k, v). (k, view n st v)"
  from assms(1,2) have t: "merge_target st m parts = Some m" by (simp add: merge_target_def)
  from h_merge_chunk_target [OF t assms(2,3)]
  have h: "h_merge_chunk st (HRef m) parts fixed = Inr ?st'" .
  have fr: "\<forall>a. a \<noteq> m \<longrightarrow> ?st' a = st a" by simp
  have "view (Suc n) ?st' (HRef m) = YObj (map (\<lambda>(k, v). (k, view n ?st' v)) ?ts')" by simp
  also have "map (\<lambda>(k, v). (k, view n ?st' v)) ?ts' = fold (\<lambda>(k, v). obj_set k v) (map ?g ?fs) (map ?g ps)"
    using fr assms(4,5) by (rule view_fold_obj_set)
  finally have l: "h_merge_view (Suc n) st (HRef m) parts fixed =
      Inr (YObj (fold (\<lambda>(k, v). obj_set k v) (map ?g ?fs) (map ?g ps)))"
    by (simp only: h_merge_view_def h sum.case)
  have v: "view (Suc n) st (HRef m) = YObj (map ?g ps)" using assms(2) by simp
  from assms(3) have "\<not> proto_setter_hit (map ?g ps) (map ?g ?fs)" by (simp add: proto_setter_hit_map)
  with assms(1) have "merge_chunk (YObj (map ?g ps)) parts (view (Suc n) st fixed) =
      Inr (YObj (fold (\<lambda>(k, v). obj_set k v) (map ?g ?fs) (map ?g ps)))"
    by (simp add: merge_chunk_def own_enumerable_view del: view.simps)
  with l v show ?thesis by simp
qed

lemma h_merge_view_paths:
  assumes "length parts > 1" and "st m = Some (HObject ps)"
    and "obj_get ps ''paths'' = Some (HRef p)" and "st p = Some (HObject qs)" and "p \<noteq> m"
    and "\<not> proto_setter_hit qs (h_own_enumerable st fixed)"
    and "distinct (map fst ps)"
    and "\<forall>(k, v) \<in> set ps. k \<noteq> ''paths'' \<longrightarrow> \<not> reads (Suc n) st v p"
    and "\<forall>(k, v) \<in> set qs. \<not> reads n st v p"
    and "\<forall>(k, v) \<in> set (h_own_enumerable st fixed). \<not> reads n st v p"
  shows "h_merge_view (Suc (Suc n)) st (HRef m) parts fixed =
         merge_chunk (view (Suc (Suc n)) st (HRef m)) parts (view (Suc n) st fixed)"
proof -
  let ?fs = "h_own_enumerable st fixed"
  let ?qs' = "fold (\<lambda>(k, v). obj_set k v) ?fs qs"
  let ?st' = "st(p \<mapsto> HObject ?qs')"
  let ?g = "\<lambda>(k, v). (k, view n st v)"
  let ?G = "\<lambda>(k, v). (k, view (Suc n) st v)"
  let ?Q = "YObj (fold (\<lambda>(k, v). obj_set k v) (map ?g ?fs) (map ?g qs))"
  from assms(1,2,3) have t: "merge_target st m parts = Some p" by (simp add: merge_target_def)
  from h_merge_chunk_target [OF t assms(4,6)]
  have h: "h_merge_chunk st (HRef m) parts fixed = Inr ?st'" .
  have fr: "\<forall>a. a \<noteq> p \<longrightarrow> ?st' a = st a" by simp
  have "map (\<lambda>(k, v). (k, view n ?st' v)) ?qs' = fold (\<lambda>(k, v). obj_set k v) (map ?g ?fs) (map ?g qs)"
    using fr assms(9,10) by (rule view_fold_obj_set)
  then have vp: "view (Suc n) ?st' (HRef p) = ?Q" by simp
  have other: "\<forall>(k, v) \<in> set ps. k \<noteq> ''paths'' \<longrightarrow> view (Suc n) ?st' v = view (Suc n) st v"
    using assms(8) view_frame [OF fr] by blast
  from assms(5,2) have "view (Suc (Suc n)) ?st' (HRef m) = YObj (map (\<lambda>(k, v). (k, view (Suc n) ?st' v)) ps)"
    by simp
  also have "map (\<lambda>(k, v). (k, view (Suc n) ?st' v)) ps = obj_modify ''paths'' (\<lambda>_. ?Q) (map ?G ps)"
    using assms(7,3) other vp by (rule map_modify_one)
  finally have l: "h_merge_view (Suc (Suc n)) st (HRef m) parts fixed =
      Inr (YObj (obj_modify ''paths'' (\<lambda>_. ?Q) (map ?G ps)))"
    by (simp only: h_merge_view_def h sum.case)
  have v: "view (Suc (Suc n)) st (HRef m) = YObj (map ?G ps)" using assms(2) by simp
  have g: "get_prop (YObj (map ?G ps)) ''paths'' = Inr (YObj (map ?g qs))"
    using assms(3,4) by (simp add: obj_get_map)
  from assms(6) have "\<not> proto_setter_hit (map ?g qs) (map ?g ?fs)" by (simp add: proto_setter_hit_map)
  then have "object_assign (YObj (map ?g qs)) (view (Suc n) st fixed) = Inr ?Q"
    by (simp add: own_enumerable_view del: view.simps)
  with assms(1) g have "merge_chunk (YObj (map ?G ps)) parts (view (Suc n) st fixed) =
      Inr (YObj (obj_modify ''paths'' (\<lambda>_. ?Q) (map ?G ps)))"
    by (simp add: merge_chunk_def del: view.simps)
  with l v show ?thesis by simp
qed

text \<open>
  C5, as the code has it: the document is a store of objects, in which \<open>yaml.load\<close> gives an anchor
  and its aliases one object. A merge writes to one object, the target: the main object,
  or, for a key of two pieces, the object that the main object has under \<open>paths\<close>. When the
  target is a mapping, and owns \<open>__proto__\<close> if the fixed chunk has this key, the merge
  succeeds; afterwards the target has the keys of before and the keys of the fixed chunk,
  each key of the chunk with the value the chunk gives last for it and every other key of
  the target, its sibling entries, with the value of before; and every other object of
  the store is as before, so that the other top-level keys refer to what they referred
  to. What a key shows that refers to the target itself is the merged object.
\<close>

theorem C5_merge_frame:
  assumes "merge_target st m parts = Some t" and "st t = Some (HObject ts)"
    and "\<not> proto_setter_hit ts (h_own_enumerable st fixed)"
  shows "\<exists>st' ts'. h_merge_chunk st (HRef m) parts fixed = Inr st' \<and>
     st' t = Some (HObject ts') \<and>
     (\<forall>a. a \<noteq> t \<longrightarrow> st' a = st a) \<and>
     set (map fst ts') = set (map fst ts) \<union> set (map fst (h_own_enumerable st fixed)) \<and>
     (\<forall>k. obj_get ts' k =
            (case map_of (rev (h_own_enumerable st fixed)) k of
               None \<Rightarrow> obj_get ts k
             | Some v \<Rightarrow> Some v))"
proof -
  let ?ts' = "fold (\<lambda>(k, v). obj_set k v) (h_own_enumerable st fixed) ts"
  have k: "\<forall>k. obj_get ?ts' k =
            (case map_of (rev (h_own_enumerable st fixed)) k of
               None \<Rightarrow> obj_get ts k
             | Some v \<Rightarrow> Some v)"
    by (simp add: obj_get_def map_of_fold_obj_set map_add_def split: option.splits)
  have s: "set (map fst ?ts') = set (map fst ts) \<union> set (map fst (h_own_enumerable st fixed))"
    by (rule keys_fold_obj_set)
  have "h_merge_chunk st (HRef m) parts fixed = Inr (st(t \<mapsto> HObject ?ts')) \<and>
        (st(t \<mapsto> HObject ?ts')) t = Some (HObject ?ts') \<and>
        (\<forall>a. a \<noteq> t \<longrightarrow> (st(t \<mapsto> HObject ?ts')) a = st a)"
    using h_merge_chunk_target [OF assms] by simp
  with s k show ?thesis by blast
qed

lemma sample_store_view: "view 4 sample_store (HRef 0) = sample_doc"
  by code_simp

lemma sample_store_merge_users:
  "h_merge_view 4 sample_store (HRef 0) [''paths'', ''/users''] (HRef 7) = Inr doc_fixed_users"
  by code_simp

lemma sample_store_merge_info:
  "h_merge_view 4 sample_store (HRef 0) [''info''] (HRef 10) = Inr doc_fixed_info"
  by code_simp

lemma sample_merge_info: "merge_chunk sample_doc [''info''] fixed_info = Inr doc_fixed_info"
  by code_simp

theorem C5_merge_frame_witness:
  "merge_target sample_store 0 [''paths'', ''/users''] = Some 2 \<and>
   sample_store 2 = Some (HObject [(''/users'', HRef 3), (''/orders'', HRef 5)]) \<and>
   \<not> proto_setter_hit [(''/users'', HRef 3), (''/orders'', HRef 5)]
        (h_own_enumerable sample_store (HRef 7)) \<and>
   (\<exists>st' ts'. h_merge_chunk sample_store (HRef 0) [''paths'', ''/users''] (HRef 7) = Inr st' \<and>
      st' 2 = Some (HObject ts') \<and> st' 0 = sample_store 0 \<and> st' 1 = sample_store 1 \<and>
      obj_get ts' ''/users'' = Some (HRef 8) \<and> obj_get ts' ''/orders'' = Some (HRef 5)) \<and>
   merge_target sample_store 0 [''info''] = Some 0 \<and>
   sample_store 0 =
     Some (HObject [(''openapi'', HStr ''3.0.0''), (''info'', HRef 1), (''paths'', HRef 2)]) \<and>
   \<not> proto_setter_hit [(''openapi'', HStr ''3.0.0''), (''info'', HRef 1), (''paths'', HRef 2)]
        (h_own_enumerable sample_store (HRef 10)) \<and>
   (\<exists>st' ts'. h_merge_chunk sample_store (HRef 0) [''info''] (HRef 10) = Inr st' \<and>
      st' 0 = Some (HObject ts') \<and> st' 2 = sample_store 2 \<and>
      obj_get ts' ''info'' = Some (HRef 11) \<and> obj_get ts' ''paths'' = Some (HRef 2) \<and>
      obj_get ts' ''openapi'' = Some (HStr ''3.0.0''))"
proof -
  let ?qs = "[(''/users'', HRef 3), (''/orders'', HRef 5)]"
  let ?ps = "[(''openapi'', HStr ''3.0.0''), (''info'', HRef 1), (''paths'', HRef 2)]"
  have t1: "merge_target sample_store 0 [''paths'', ''/users''] = Some 2" by code_simp
  have o1: "sample_store 2 = Some (HObject ?qs)" by code_simp
  have n1: "\<not> proto_setter_hit ?qs (h_own_enumerable sample_store (HRef 7))" by code_simp
  have e1: "h_own_enumerable sample_store (HRef 7) = [(''/users'', HRef 8)]" by code_simp
  have t2: "merge_target sample_store 0 [''info''] = Some 0" by code_simp
  have o2: "sample_store 0 = Some (HObject ?ps)" by code_simp
  have n2: "\<not> proto_setter_hit ?ps (h_own_enumerable sample_store (HRef 10))" by code_simp
  have e2: "h_own_enumerable sample_store (HRef 10) = [(''info'', HRef 11)]" by code_simp
  from C5_merge_frame [OF t1 o1 n1] obtain st1 ts1 where
    m1: "h_merge_chunk sample_store (HRef 0) [''paths'', ''/users''] (HRef 7) = Inr st1"
    and s1: "st1 2 = Some (HObject ts1)"
    and f1: "\<forall>a. a \<noteq> 2 \<longrightarrow> st1 a = sample_store a"
    and k1: "\<forall>k. obj_get ts1 k =
            (case map_of (rev (h_own_enumerable sample_store (HRef 7))) k of
               None \<Rightarrow> obj_get ?qs k
             | Some v \<Rightarrow> Some v)"
    by blast
  from f1 have a1: "st1 0 = sample_store 0" "st1 1 = sample_store 1" by simp_all
  from k1 have "\<forall>k. obj_get ts1 k =
            (case map_of (rev [(''/users'', HRef 8)]) k of None \<Rightarrow> obj_get ?qs k | Some v \<Rightarrow> Some v)"
    unfolding e1 .
  then have u1: "obj_get ts1 ''/users'' = Some (HRef 8)" "obj_get ts1 ''/orders'' = Some (HRef 5)"
    by (simp_all add: obj_get_def)
  from m1 s1 a1 u1
  have r1: "\<exists>st' ts'. h_merge_chunk sample_store (HRef 0) [''paths'', ''/users''] (HRef 7) = Inr st' \<and>
      st' 2 = Some (HObject ts') \<and> st' 0 = sample_store 0 \<and> st' 1 = sample_store 1 \<and>
      obj_get ts' ''/users'' = Some (HRef 8) \<and> obj_get ts' ''/orders'' = Some (HRef 5)"
    by blast
  from C5_merge_frame [OF t2 o2 n2] obtain st2 ts2 where
    m2: "h_merge_chunk sample_store (HRef 0) [''info''] (HRef 10) = Inr st2"
    and s2: "st2 0 = Some (HObject ts2)"
    and f2: "\<forall>a. a \<noteq> 0 \<longrightarrow> st2 a = sample_store a"
    and k2: "\<forall>k. obj_get ts2 k =
            (case map_of (rev (h_own_enumerable sample_store (HRef 10))) k of
               None \<Rightarrow> obj_get ?ps k
             | Some v \<Rightarrow> Some v)"
    by blast
  from f2 have a2: "st2 2 = sample_store 2" by simp
  from k2 have "\<forall>k. obj_get ts2 k =
            (case map_of (rev [(''info'', HRef 11)]) k of None \<Rightarrow> obj_get ?ps k | Some v \<Rightarrow> Some v)"
    unfolding e2 .
  then have u2: "obj_get ts2 ''info'' = Some (HRef 11)" "obj_get ts2 ''paths'' = Some (HRef 2)"
      "obj_get ts2 ''openapi'' = Some (HStr ''3.0.0'')"
    by (simp_all add: obj_get_def)
  from m2 s2 a2 u2
  have r2: "\<exists>st' ts'. h_merge_chunk sample_store (HRef 0) [''info''] (HRef 10) = Inr st' \<and>
      st' 0 = Some (HObject ts') \<and> st' 2 = sample_store 2 \<and>
      obj_get ts' ''info'' = Some (HRef 11) \<and> obj_get ts' ''paths'' = Some (HRef 2) \<and>
      obj_get ts' ''openapi'' = Some (HStr ''3.0.0'')"
    by blast
  from t1 o1 n1 r1 t2 o2 n2 r2 show ?thesis by (intro conjI)
qed

text \<open>
  The claim C5 as stated fails: where \<open>paths\<close> carries an anchor and another top-level key
  is an alias of it, the merge of a chunk under \<open>paths\<close> changes what the other key shows.
\<close>

theorem C5_counterexample:
  "view 4 alias_store (HRef 0) =
     YObj [(''openapi'', YStr ''3.0.0''),
           (''paths'', YObj [(''/users'', YObj [(''get'', YObj [])])]),
           (''x-paths'', YObj [(''/users'', YObj [(''get'', YObj [])])])] \<and>
   view 3 alias_store (HRef 4) = fixed_users \<and>
   h_merge_view 4 alias_store (HRef 0) [''paths'', ''/users''] (HRef 4) =
     Inr (YObj [(''openapi'', YStr ''3.0.0''),
                (''paths'', YObj [(''/users'', YObj [(''get'', YObj [(''summary'', YStr ''List users'')])])]),
                (''x-paths'', YObj [(''/users'', YObj [(''get'', YObj [(''summary'', YStr ''List users'')])])])])"
  by code_simp
lemma fix_regions_calls:
  "fix_regions e main calls groups = (res, calls') \<Longrightarrow>
   \<exists>new. calls' = calls @ new \<and>
         (\<exists>rest. concat (map (\<lambda>(key, issuesForChunk). splice_chunks issuesForChunk) groups)
                   = map snd new @ rest)"
proof (induction groups arbitrary: main calls)
  case Nil
  then show ?case by simp
next
  case (Cons g groups)
  obtain key issues where g: "g = (key, issues)" by (cases g)
  show ?case
  proof (cases "extract_chunk main key")
    case (Inl err)
    with Cons.prems g show ?thesis by (auto split: js_error.splits)
  next
    case (Inr chunk)
    obtain res1 calls1 where l: "fix_chunk_loop e (split_dot key) main chunk calls issues = (res1, calls1)"
      by (cases "fix_chunk_loop e (split_dot key) main chunk calls issues")
    from fix_chunk_loop_calls [OF l] obtain new1 where n1: "calls1 = calls @ new1"
      and p1: "\<exists>rest. splice_chunks issues = map snd new1 @ rest"
      and f1: "\<forall>m. res1 = Inr m \<longrightarrow> map snd new1 = splice_chunks issues"
      by blast
    show ?thesis
    proof (cases res1)
      case (Inl out)
      with Cons.prems g Inr l have "calls' = calls1" by simp
      with n1 p1 g show ?thesis by auto
    next
      case (Inr main1)
      with Cons.prems g \<open>extract_chunk main key = Inr chunk\<close> l
      have r: "fix_regions e main1 calls1 groups = (res, calls')" by simp
      from Cons.IH [OF r] obtain new2 rest where n2: "calls' = calls1 @ new2"
        and p2: "concat (map (\<lambda>(key, issuesForChunk). splice_chunks issuesForChunk) groups)
                   = map snd new2 @ rest"
        by blast
      from f1 Inr have "map snd new1 = splice_chunks issues" by simp
      with p2 g have "concat (map (\<lambda>(key, issuesForChunk). splice_chunks issuesForChunk) (g # groups))
          = map snd (new1 @ new2) @ rest" by simp
      moreover from n1 n2 have "calls' = calls @ (new1 @ new2)" by simp
      ultimately show ?thesis by blast
    qed
  qed
qed

lemma settled_Inr:
  assumes "settled e n calls (Inr m)" and "n \<le> i" and "i < length calls"
  shows "\<not> adapter_failed e calls i \<and> \<not> unparsable e calls i"
  using assms by (auto simp: settled_def)

lemma fix_regions_settled:
  "fix_regions e main calls groups = (res, calls') \<Longrightarrow> settled e (length calls) calls' res"
proof (induction groups arbitrary: main calls)
  case Nil
  then show ?case by (simp add: settled_empty)
next
  case (Cons g groups)
  obtain key issues where g: "g = (key, issues)" by (cases g)
  show ?case
  proof (cases "extract_chunk main key")
    case (Inl err)
    with Cons.prems g show ?thesis by (auto simp: settled_empty split: js_error.splits)
  next
    case (Inr chunk)
    obtain res1 calls1 where l: "fix_chunk_loop e (split_dot key) main chunk calls issues = (res1, calls1)"
      by (cases "fix_chunk_loop e (split_dot key) main chunk calls issues")
    from fix_chunk_loop_settled [OF l] have s1: "settled e (length calls) calls1 res1" .
    show ?thesis
    proof (cases res1)
      case (Inl out)
      with Cons.prems g Inr l have "calls' = calls1" "res = res1" by simp_all
      with s1 show ?thesis by simp
    next
      case (Inr main1)
      with Cons.prems g \<open>extract_chunk main key = Inr chunk\<close> l
      have r: "fix_regions e main1 calls1 groups = (res, calls')" by simp
      from Cons.IH [OF r] have s2: "settled e (length calls1) calls' res" .
      from fix_regions_calls [OF r] obtain new where n: "calls' = calls1 @ new" by blast
      have "settled e (length calls) (calls1 @ new) res"
      proof (rule settled_extend)
        from s2 n show "settled e (length calls1) (calls1 @ new) res" by simp
      next
        fix i
        assume "length calls \<le> i" "i < length calls1"
        with s1 Inr show "\<not> adapter_failed e calls1 i \<and> \<not> unparsable e calls1 i"
          using settled_Inr by blast
      qed
      with n show ?thesis by simp
    qed
  qed
qed

lemma fix_regions_outcome:
  "fix_regions e main calls groups = (Inl (Resolved t), calls') \<Longrightarrow> startsWith t failure_prefix"
proof (induction groups arbitrary: main calls)
  case Nil
  then show ?case by simp
next
  case (Cons g groups)
  obtain key issues where g: "g = (key, issues)" by (cases g)
  show ?case
  proof (cases "extract_chunk main key")
    case (Inl err)
    with Cons.prems g failure_texts show ?thesis by (auto split: js_error.splits)
  next
    case (Inr chunk)
    obtain res1 calls1 where l: "fix_chunk_loop e (split_dot key) main chunk calls issues = (res1, calls1)"
      by (cases "fix_chunk_loop e (split_dot key) main chunk calls issues")
    show ?thesis
    proof (cases res1)
      case (Inl out)
      with Cons.prems g Inr l have "res1 = Inl (Resolved t)" by simp
      with l show ?thesis using fix_chunk_loop_outcome by blast
    next
      case (Inr main1)
      with Cons.prems g \<open>extract_chunk main key = Inr chunk\<close> l
      have r: "fix_regions e main1 calls1 groups = (Inl (Resolved t), calls')" by simp
      then show ?thesis by (rule Cons.IH)
    qed
  qed
qed

lemma map_snd_Partitioner:
  assumes "errorsByChunkKey allIssues = Inr groups"
  shows "map snd (Partitioner allIssues) =
     concat (map (\<lambda>(key, issuesForChunk). splice_chunks issuesForChunk) groups)"
proof -
  have "map snd (concat (map (\<lambda>(key, issuesForChunk). map (Pair key) (splice_chunks issuesForChunk)) g))
      = concat (map (\<lambda>(key, issuesForChunk). splice_chunks issuesForChunk) g)"
    for g :: "fix_issue list js_object"
    by (induction g) (auto simp: comp_def)
  then show ?thesis by (simp add: Partitioner_Inr [OF assms])
qed

lemma getAiFixes_run:
  assumes "getAiFixes e text issues = (out, calls)"
  shows "calls = [] \<or>
         (\<exists>main groups res. errorsByChunkKey (errors issues @ warnings issues) = Inr groups \<and>
            fix_regions e main [] groups = (res, calls) \<and>
            (\<forall>out1. res = Inl out1 \<longrightarrow> out = out1))"
  using assms
  by (auto simp: getAiFixes_def Let_def split: if_splits option.splits prod.splits sum.splits)

lemma fix_regions_complete:
  "fix_regions e main calls groups = (Inr m, calls') \<Longrightarrow>
   map snd calls' =
     map snd calls @ concat (map (\<lambda>(key, issuesForChunk). splice_chunks issuesForChunk) groups)"
proof (induction groups arbitrary: main calls)
  case Nil
  then show ?case by simp
next
  case (Cons g groups)
  obtain key issues where g: "g = (key, issues)" by (cases g)
  from Cons.prems g obtain chunk where c: "extract_chunk main key = Inr chunk"
    by (cases "extract_chunk main key") (auto split: js_error.splits)
  obtain res1 calls1 where l: "fix_chunk_loop e (split_dot key) main chunk calls issues = (res1, calls1)"
    by (cases "fix_chunk_loop e (split_dot key) main chunk calls issues")
  with Cons.prems g c obtain main1 where r1: "res1 = Inr main1"
    and r: "fix_regions e main1 calls1 groups = (Inr m, calls')"
    by (cases res1) auto
  from fix_chunk_loop_calls [OF l] r1 have "map snd calls1 = map snd calls @ splice_chunks issues"
    by auto
  with Cons.IH [OF r] g show ?case by simp
qed

lemma getAiFixes_abort:
  assumes "getAiFixes e text issues = (out, calls)"
  shows "(\<exists>rest. map snd (Partitioner (errors issues @ warnings issues)) = map snd calls @ rest) \<and>
         (\<forall>i < length calls. adapter_failed e calls i \<or> unparsable e calls i \<longrightarrow>
            Suc i = length calls \<and>
            out = Resolved (if adapter_failed e calls i then response_of e calls i else parse_error))"
proof (cases "calls = []")
  case True
  then show ?thesis by simp
next
  case False
  with getAiFixes_run [OF assms] obtain main groups res
    where g: "errorsByChunkKey (errors issues @ warnings issues) = Inr groups"
      and r: "fix_regions e main [] groups = (res, calls)"
      and oo: "\<forall>out1. res = Inl out1 \<longrightarrow> out = out1"
    by blast
  from fix_regions_calls [OF r] have "\<exists>rest. map snd (Partitioner (errors issues @ warnings issues)) = map snd calls @ rest"
    by (auto simp: map_snd_Partitioner [OF g])
  moreover from fix_regions_settled [OF r] oo
  have "\<forall>i < length calls. adapter_failed e calls i \<or> unparsable e calls i \<longrightarrow>
            Suc i = length calls \<and>
            out = Resolved (if adapter_failed e calls i then response_of e calls i else parse_error)"
    by (auto simp: settled_def)
  ultimately show ?thesis by blast
qed


text \<open>
  C1, as the code has it: the requests sent are the first chunks of the partition, in its
  order; a call for which the adapter returns a failure text, or a text that does not
  load as YAML, is the last call of the run, and the run resolves to that failure text,
  or to the fixed text of the parse failure. In index.js, whose chunks are cut from the
  whole list, a call that returns a failure text is the last, and its text is the result.
\<close>

theorem C1_abort_on_failure:
  "(getAiFixes e text issues = (out, calls) \<longrightarrow>
      (\<exists>rest. map snd (Partitioner (errors issues @ warnings issues)) = map snd calls @ rest) \<and>
      (\<forall>i < length calls. adapter_failed e calls i \<or> unparsable e calls i \<longrightarrow>
         Suc i = length calls \<and>
         out = Resolved (if adapter_failed e calls i then response_of e calls i else parse_error))) \<and>
   (getAiFixes_index e text issues = (out, calls) \<longrightarrow>
      (\<exists>rest. splice_chunks (errors issues @ warnings issues) = map snd calls @ rest) \<and>
      (\<forall>i < length calls. startsWith (response_of_index e calls i) failure_prefix \<longrightarrow>
         Suc i = length calls \<and> out = Resolved (response_of_index e calls i)))"
  using getAiFixes_abort [of e "text" issues out calls]
        getAiFixes_index_run [of e "text" issues out calls]
  by blast

theorem C1_abort_on_failure_witness:
  "getAiFixes env_down sample_text \<lparr>warnings = [], errors = [info_issue]\<rparr> =
     (Resolved down_text, [(''{info: {title: Shop}}'', [info_issue])]) \<and>
   adapter_failed env_down [(''{info: {title: Shop}}'', [info_issue])] 0 \<and>
   Suc 0 = length [(''{info: {title: Shop}}'', [info_issue])] \<and>
   Resolved down_text = Resolved (response_of env_down [(''{info: {title: Shop}}'', [info_issue])] 0) \<and>
   getAiFixes_index env_down sample_text \<lparr>warnings = [], errors = [info_issue]\<rparr> =
     (Resolved down_text, [(sample_text, [info_issue])]) \<and>
   startsWith (response_of_index env_down [(sample_text, [info_issue])] 0) failure_prefix \<and>
   Resolved down_text = Resolved (response_of_index env_down [(sample_text, [info_issue])] 0)"
proof -
  from C1_abort_on_failure [of env_down sample_text "\<lparr>warnings = [], errors = [info_issue]\<rparr>"
          "Resolved down_text" "[(''{info: {title: Shop}}'', [info_issue])]"] run_down_info
  have "\<forall>i < length [(''{info: {title: Shop}}'', [info_issue])].
          adapter_failed env_down [(''{info: {title: Shop}}'', [info_issue])] i \<or>
          unparsable env_down [(''{info: {title: Shop}}'', [info_issue])] i \<longrightarrow>
          Suc i = length [(''{info: {title: Shop}}'', [info_issue])] \<and>
          Resolved down_text =
            Resolved (if adapter_failed env_down [(''{info: {title: Shop}}'', [info_issue])] i
                      then response_of env_down [(''{info: {title: Shop}}'', [info_issue])] i
                      else parse_error)"
    by blast
  with down_failed
  have a: "Resolved down_text = Resolved (response_of env_down [(''{info: {title: Shop}}'', [info_issue])] 0)"
    by fastforce
  from C1_abort_on_failure [of env_down sample_text "\<lparr>warnings = [], errors = [info_issue]\<rparr>"
          "Resolved down_text" "[(sample_text, [info_issue])]"] run_down_index
  have "\<forall>i < length [(sample_text, [info_issue])].
          startsWith (response_of_index env_down [(sample_text, [info_issue])] i) failure_prefix \<longrightarrow>
          Suc i = length [(sample_text, [info_issue])] \<and>
          Resolved down_text = Resolved (response_of_index env_down [(sample_text, [info_issue])] i)"
    by blast
  with down_failed_index
  have b: "Resolved down_text = Resolved (response_of_index env_down [(sample_text, [info_issue])] 0)"
    by fastforce
  from a b run_down_info run_down_index down_failed down_failed_index show ?thesis
    by simp
qed

text \<open>
  The claim C1 as stated fails: two runs that fail in different regions resolve to the
  same text, which names neither; and a run over a region that the document does not
  have sends its request and resolves to a document.
\<close>

theorem C1_counterexample:
  "getAiFixes env_down sample_text \<lparr>warnings = [], errors = [info_issue]\<rparr> =
     (Resolved down_text, [(''{info: {title: Shop}}'', [info_issue])]) \<and>
   getAiFixes env_down sample_text \<lparr>warnings = [], errors = [users_issue]\<rparr> =
     (Resolved down_text, [(''{/users: {get: {}}}'', [users_issue])]) \<and>
   chunk_key info_issue \<noteq> chunk_key users_issue \<and>
   \<not> resolves sample_doc (chunk_key components_issue) \<and>
   getAiFixes env_fix sample_text \<lparr>warnings = [], errors = [components_issue]\<rparr> =
     (Resolved ''{openapi: 3.0.0, info: {title: Shop}, paths: {/users: {get: {}}, /orders: {get: {}}}, components: {}}'',
      [(''{}'', [components_issue])])"
  using run_down_info run_down_users run_fix_components components_absent sample_keys_differ
  by simp

text \<open>
  C10, as the code has it. In index.js a run is taken to have failed exactly when the text the adapter
  returned for a chunk begins with \<open>AI fix failed:\<close>: a call has such a text exactly when
  it is the last call of a run that stopped, a run that stopped returns the text of its
  last call, and a run that finished has sent every chunk. In the draft that repairs by
  regions a call has such a text exactly when it is the last call and the run fails with
  that text; a run also fails there after a text without the prefix, when the text does
  not load or cannot be merged, and every text of a failed run begins with the prefix. In
  both, a response that the service gave with success, and whose extracted content begins
  with the prefix, ends the run with that content as its failure.
\<close>

theorem C10_prefix_decides:
  "(fix_loop_index e1 doc [] issues1 = (en, out, calls1) \<longrightarrow>
      (\<forall>i < length calls1.
          startsWith (response_of_index e1 calls1 i) failure_prefix \<longleftrightarrow>
          Suc i = length calls1 \<and> en = Stopped) \<and>
      (en = Stopped \<longrightarrow> calls1 \<noteq> [] \<and> out = response_of_index e1 calls1 (length calls1 - 1)) \<and>
      (en = Finished \<longrightarrow> map snd calls1 = splice_chunks issues1)) \<and>
   (fix_regions e2 main2 [] groups = (res, calls2) \<longrightarrow>
      (\<forall>i < length calls2.
          adapter_failed e2 calls2 i \<longleftrightarrow>
          Suc i = length calls2 \<and> res = Inl (Resolved (response_of e2 calls2 i))) \<and>
      (\<forall>t. res = Inl (Resolved t) \<longrightarrow> startsWith t failure_prefix)) \<and>
   (issues \<noteq> [] \<and> fetch e (length calls) (s, take CHUNK_SIZE issues) = OkJson (Some answer) \<and>
    answer \<noteq> [] \<and>
    (case yaml_match answer of Some yamlMatch \<Rightarrow> yamlMatch | None \<Rightarrow> trim answer) = content \<and>
    startsWith content failure_prefix \<longrightarrow>
      fix_loop_index e s calls issues = (Stopped, content, calls @ [(s, take CHUNK_SIZE issues)]) \<and>
      (yaml_dump e chunk = Some s \<longrightarrow>
         fix_chunk_loop e parts main chunk calls issues =
           (Inl (Resolved content), calls @ [(s, take CHUNK_SIZE issues)])))"
proof -
  have A: "fix_loop_index e1 doc [] issues1 = (en, out, calls1) \<longrightarrow>
      (\<forall>i < length calls1.
          startsWith (response_of_index e1 calls1 i) failure_prefix \<longleftrightarrow>
          Suc i = length calls1 \<and> en = Stopped) \<and>
      (en = Stopped \<longrightarrow> calls1 \<noteq> [] \<and> out = response_of_index e1 calls1 (length calls1 - 1)) \<and>
      (en = Finished \<longrightarrow> map snd calls1 = splice_chunks issues1)"
  proof (rule impI)
    assume r: "fix_loop_index e1 doc [] issues1 = (en, out, calls1)"
    from fix_loop_index_run [OF r]
    have f: "\<forall>i. i < length calls1 \<and> startsWith (response_of_index e1 calls1 i) failure_prefix \<longrightarrow>
               Suc i = length calls1 \<and> out = response_of_index e1 calls1 i"
      by simp
    from fix_loop_index_ending [OF r]
    have st: "en = Stopped \<longrightarrow>
                0 < length calls1 \<and>
                startsWith (response_of_index e1 calls1 (length calls1 - 1)) failure_prefix \<and>
                out = response_of_index e1 calls1 (length calls1 - 1)"
      and fin: "en = Finished \<longrightarrow> splice_chunks issues1 = map snd calls1"
      by simp_all
    have c1: "\<forall>i < length calls1.
            startsWith (response_of_index e1 calls1 i) failure_prefix \<longleftrightarrow>
            Suc i = length calls1 \<and> en = Stopped"
    proof (intro allI impI iffI)
      fix i
      assume i: "i < length calls1" and p: "startsWith (response_of_index e1 calls1 i) failure_prefix"
      with f have l: "Suc i = length calls1" by blast
      have "en \<noteq> Finished"
      proof
        assume "en = Finished"
        with r have "fix_loop_index e1 doc [] issues1 = (Finished, out, calls1)" by simp
        from fix_loop_index_Finished [OF this] i p show False by simp
      qed
      then have "en = Stopped" by (cases en) simp_all
      with l show "Suc i = length calls1 \<and> en = Stopped" by simp
    next
      fix i
      assume "i < length calls1" and a: "Suc i = length calls1 \<and> en = Stopped"
      then have "length calls1 - 1 = i" by arith
      with st a show "startsWith (response_of_index e1 calls1 i) failure_prefix" by auto
    qed
    from st have c2: "en = Stopped \<longrightarrow> calls1 \<noteq> [] \<and> out = response_of_index e1 calls1 (length calls1 - 1)"
      by auto
    from fin have c3: "en = Finished \<longrightarrow> map snd calls1 = splice_chunks issues1" by simp
    from c1 c2 c3 show "(\<forall>i < length calls1.
          startsWith (response_of_index e1 calls1 i) failure_prefix \<longleftrightarrow>
          Suc i = length calls1 \<and> en = Stopped) \<and>
      (en = Stopped \<longrightarrow> calls1 \<noteq> [] \<and> out = response_of_index e1 calls1 (length calls1 - 1)) \<and>
      (en = Finished \<longrightarrow> map snd calls1 = splice_chunks issues1)"
      by (intro conjI)
  qed
  have B: "fix_regions e2 main2 [] groups = (res, calls2) \<longrightarrow>
      (\<forall>i < length calls2.
          adapter_failed e2 calls2 i \<longleftrightarrow>
          Suc i = length calls2 \<and> res = Inl (Resolved (response_of e2 calls2 i))) \<and>
      (\<forall>t. res = Inl (Resolved t) \<longrightarrow> startsWith t failure_prefix)"
  proof (rule impI)
    assume r: "fix_regions e2 main2 [] groups = (res, calls2)"
    from fix_regions_settled [OF r] have s: "settled e2 0 calls2 res" by simp
    have c1: "\<forall>i < length calls2.
            adapter_failed e2 calls2 i \<longleftrightarrow>
            Suc i = length calls2 \<and> res = Inl (Resolved (response_of e2 calls2 i))"
    proof (intro allI impI iffI)
      fix i
      assume "i < length calls2" and "adapter_failed e2 calls2 i"
      with s show "Suc i = length calls2 \<and> res = Inl (Resolved (response_of e2 calls2 i))"
        by (auto simp: settled_def)
    next
      fix i
      assume "i < length calls2" and a: "Suc i = length calls2 \<and> res = Inl (Resolved (response_of e2 calls2 i))"
      with r have "fix_regions e2 main2 [] groups = (Inl (Resolved (response_of e2 calls2 i)), calls2)"
        by simp
      then have "startsWith (response_of e2 calls2 i) failure_prefix" by (rule fix_regions_outcome)
      then show "adapter_failed e2 calls2 i" by (simp add: adapter_failed_def)
    qed
    have c2: "\<forall>t. res = Inl (Resolved t) \<longrightarrow> startsWith t failure_prefix"
      using r fix_regions_outcome by blast
    from c1 c2 show "(\<forall>i < length calls2.
          adapter_failed e2 calls2 i \<longleftrightarrow>
          Suc i = length calls2 \<and> res = Inl (Resolved (response_of e2 calls2 i))) \<and>
      (\<forall>t. res = Inl (Resolved t) \<longrightarrow> startsWith t failure_prefix)"
      by (rule conjI)
  qed
  have C: "issues \<noteq> [] \<and> fetch e (length calls) (s, take CHUNK_SIZE issues) = OkJson (Some answer) \<and>
    answer \<noteq> [] \<and>
    (case yaml_match answer of Some yamlMatch \<Rightarrow> yamlMatch | None \<Rightarrow> trim answer) = content \<and>
    startsWith content failure_prefix \<longrightarrow>
      fix_loop_index e s calls issues = (Stopped, content, calls @ [(s, take CHUNK_SIZE issues)]) \<and>
      (yaml_dump e chunk = Some s \<longrightarrow>
         fix_chunk_loop e parts main chunk calls issues =
           (Inl (Resolved content), calls @ [(s, take CHUNK_SIZE issues)]))"
  proof (rule impI)
    assume a: "issues \<noteq> [] \<and> fetch e (length calls) (s, take CHUNK_SIZE issues) = OkJson (Some answer) \<and>
      answer \<noteq> [] \<and>
      (case yaml_match answer of Some yamlMatch \<Rightarrow> yamlMatch | None \<Rightarrow> trim answer) = content \<and>
      startsWith content failure_prefix"
    then have "callAiWithChunk_index e (length calls) s (take CHUNK_SIZE issues) = content"
      by (auto simp: callAiWithChunk_index_def)
    with a have c1: "fix_loop_index e s calls issues = (Stopped, content, calls @ [(s, take CHUNK_SIZE issues)])"
      by (subst fix_loop_index_unfold) simp
    from a have "callAiWithChunk e (length calls) s (take CHUNK_SIZE issues) = content"
      by (auto simp: callAiWithChunk_def)
    with a have c2: "yaml_dump e chunk = Some s \<longrightarrow>
           fix_chunk_loop e parts main chunk calls issues =
             (Inl (Resolved content), calls @ [(s, take CHUNK_SIZE issues)])"
      by (simp add: fix_chunk_loop_unfold chunk_pass_def)
    from c1 c2 show "fix_loop_index e s calls issues = (Stopped, content, calls @ [(s, take CHUNK_SIZE issues)]) \<and>
      (yaml_dump e chunk = Some s \<longrightarrow>
         fix_chunk_loop e parts main chunk calls issues =
           (Inl (Resolved content), calls @ [(s, take CHUNK_SIZE issues)]))"
      by (rule conjI)
  qed
  from A B C show ?thesis by (intro conjI)
qed

lemma odd_text: "yaml_match ''AI fix failed: nothing to repair'' = None \<and>
   trim ''AI fix failed: nothing to repair'' = ''AI fix failed: nothing to repair'' \<and>
   startsWith ''AI fix failed: nothing to repair'' failure_prefix"
  by code_simp

lemma odd_env: "yaml_dump env_odd users_chunk = Some ''{/users: {get: {}}}'' \<and>
   fetch env_odd 0 (''{/users: {get: {}}}'', [users_issue]) = OkJson (Some ''AI fix failed: nothing to repair'')"
  by code_simp

lemma odd_index:
  "fix_loop_index env_odd sample_text [] [users_issue, info_issue] =
     (Stopped, ''AI fix failed: nothing to repair'', [(sample_text, [users_issue, info_issue])])"
  by code_simp

lemma odd_response:
  "response_of_index env_odd [(sample_text, [users_issue, info_issue])] 0 = ''AI fix failed: nothing to repair''"
  by code_simp

lemma fix_index:
  "fix_loop_index env_fix ''{info: {title: Shop}}'' [] [info_issue] =
     (Finished, ''{info: {title: Shop, version: 1.0.0}}'', [(''{info: {title: Shop}}'', [info_issue])])"
  by code_simp

lemma fix_response:
  "\<not> startsWith (response_of_index env_fix [(''{info: {title: Shop}}'', [info_issue])] 0) failure_prefix"
  by code_simp

lemma odd_regions:
  "fix_regions env_odd sample_doc [] [(''paths./users'', [users_issue]), (''info'', [info_issue])] =
     (Inl (Resolved ''AI fix failed: nothing to repair''), [(''{/users: {get: {}}}'', [users_issue])])"
  by code_simp

lemma odd_regions_response:
  "response_of env_odd [(''{/users: {get: {}}}'', [users_issue])] 0 = ''AI fix failed: nothing to repair''"
  by code_simp

theorem C10_prefix_decides_witness:
  "fix_loop_index env_odd sample_text [] [users_issue, info_issue] =
     (Stopped, ''AI fix failed: nothing to repair'', [(sample_text, [users_issue, info_issue])]) \<and>
   startsWith (response_of_index env_odd [(sample_text, [users_issue, info_issue])] 0) failure_prefix \<and>
   fix_loop_index env_fix ''{info: {title: Shop}}'' [] [info_issue] =
     (Finished, ''{info: {title: Shop, version: 1.0.0}}'', [(''{info: {title: Shop}}'', [info_issue])]) \<and>
   \<not> startsWith (response_of_index env_fix [(''{info: {title: Shop}}'', [info_issue])] 0) failure_prefix \<and>
   fix_regions env_odd sample_doc [] [(''paths./users'', [users_issue]), (''info'', [info_issue])] =
     (Inl (Resolved ''AI fix failed: nothing to repair''), [(''{/users: {get: {}}}'', [users_issue])]) \<and>
   adapter_failed env_odd [(''{/users: {get: {}}}'', [users_issue])] 0 \<and>
   fetch env_odd 0 (''{/users: {get: {}}}'', [users_issue]) = OkJson (Some ''AI fix failed: nothing to repair'') \<and>
   yaml_dump env_odd users_chunk = Some ''{/users: {get: {}}}'' \<and>
   fix_chunk_loop env_odd [''paths'', ''/users''] sample_doc users_chunk [] [users_issue] =
     (Inl (Resolved ''AI fix failed: nothing to repair''), [(''{/users: {get: {}}}'', [users_issue])]) \<and>
   fix_loop_index env_odd ''{/users: {get: {}}}'' [] [users_issue] =
     (Stopped, ''AI fix failed: nothing to repair'', [(''{/users: {get: {}}}'', [users_issue])]) \<and>
   map fst (Partitioner [users_issue, info_issue]) = [''paths./users'', ''info''] \<and>
   getAiFixes env_odd sample_text \<lparr>warnings = [info_issue], errors = [users_issue]\<rparr> =
     (Resolved ''AI fix failed: nothing to repair'', [(''{/users: {get: {}}}'', [users_issue])])"
proof -
  let ?t = "''AI fix failed: nothing to repair''"
  let ?c1 = "[(sample_text, [users_issue, info_issue])]"
  let ?c2 = "[(''{/users: {get: {}}}'', [users_issue])]"
  let ?c3 = "[(''{info: {title: Shop}}'', [info_issue])]"
  let ?groups = "[(''paths./users'', [users_issue]), (''info'', [info_issue])]"
  have tk: "take CHUNK_SIZE [users_issue] = [users_issue]" by (simp add: CHUNK_SIZE_def)
  note t = C10_prefix_decides [of env_odd sample_text "[users_issue, info_issue]" Stopped ?t ?c1
             env_odd sample_doc ?groups "Inl (Resolved ?t)" ?c2
             "[users_issue]" env_odd "[]" "''{/users: {get: {}}}''" ?t ?t
             users_chunk "[''paths'', ''/users'']" sample_doc]
  from t odd_index
  have "\<forall>i < length ?c1. startsWith (response_of_index env_odd ?c1 i) failure_prefix \<longleftrightarrow>
          Suc i = length ?c1 \<and> Stopped = Stopped"
    by blast
  then have a: "startsWith (response_of_index env_odd ?c1 0) failure_prefix" by simp
  from t odd_regions
  have "\<forall>i < length ?c2. adapter_failed env_odd ?c2 i \<longleftrightarrow>
          Suc i = length ?c2 \<and> Inl (Resolved ?t) = (Inl (Resolved (response_of env_odd ?c2 i)) :: outcome + yval)"
    by blast
  with odd_regions_response have b: "adapter_failed env_odd ?c2 0" by simp
  from odd_text odd_env tk
  have h: "[users_issue] \<noteq> [] \<and>
    fetch env_odd (length ([] :: request list)) (''{/users: {get: {}}}'', take CHUNK_SIZE [users_issue]) =
      OkJson (Some ?t) \<and> ?t \<noteq> [] \<and>
    (case yaml_match ?t of Some yamlMatch \<Rightarrow> yamlMatch | None \<Rightarrow> trim ?t) = ?t \<and>
    startsWith ?t failure_prefix"
    by simp
  from t h odd_env
  have c: "fix_loop_index env_odd ''{/users: {get: {}}}'' [] [users_issue] =
             (Stopped, ?t, [] @ [(''{/users: {get: {}}}'', take CHUNK_SIZE [users_issue])]) \<and>
           fix_chunk_loop env_odd [''paths'', ''/users''] sample_doc users_chunk [] [users_issue] =
             (Inl (Resolved ?t), [] @ [(''{/users: {get: {}}}'', take CHUNK_SIZE [users_issue])])"
    by blast
  from C10_prefix_decides [of env_fix "''{info: {title: Shop}}''" "[info_issue]" Finished
         "''{info: {title: Shop, version: 1.0.0}}''" ?c3] fix_index
  have "\<forall>i < length ?c3. startsWith (response_of_index env_fix ?c3 i) failure_prefix \<longleftrightarrow>
          Suc i = length ?c3 \<and> Finished = Stopped"
    by blast
  then have d: "\<not> startsWith (response_of_index env_fix ?c3 0) failure_prefix" by simp
  have p: "map fst (Partitioner [users_issue, info_issue]) = [''paths./users'', ''info'']" by code_simp
  from c tk have c1: "fix_loop_index env_odd ''{/users: {get: {}}}'' [] [users_issue] = (Stopped, ?t, ?c2)"
    and c2: "fix_chunk_loop env_odd [''paths'', ''/users''] sample_doc users_chunk [] [users_issue] =
             (Inl (Resolved ?t), ?c2)"
    by simp_all
  from odd_env have e1: "fetch env_odd 0 (''{/users: {get: {}}}'', [users_issue]) = OkJson (Some ?t)"
    and e2: "yaml_dump env_odd users_chunk = Some ''{/users: {get: {}}}''" by simp_all
  from odd_index a fix_index d odd_regions b e1 e2 c2 c1 p run_odd show ?thesis
    by (intro conjI)
qed

text \<open>
  The claim C10 as stated fails in the draft that repairs by regions: the service answers
  with success, the extracted text does not begin with \<open>AI fix failed:\<close>, and the run
  fails all the same, because the text does not load as YAML.
\<close>

theorem C10_counterexample:
  "fetch env_garbled 0 (''{info: {title: Shop}}'', [info_issue]) = OkJson (Some ''{info: ['') \<and>
   response_of env_garbled [(''{info: {title: Shop}}'', [info_issue])] 0 = ''{info: ['' \<and>
   \<not> startsWith ''{info: ['' failure_prefix \<and>
   \<not> adapter_failed env_garbled [(''{info: {title: Shop}}'', [info_issue])] 0 \<and>
   yaml_load env_garbled ''{info: ['' = None \<and>
   fix_regions env_garbled sample_doc [] [(''info'', [info_issue])] =
     (Inl (Resolved ''AI fix failed: Could not parse YAML response from AI.''),
      [(''{info: {title: Shop}}'', [info_issue])]) \<and>
   getAiFixes env_garbled sample_text \<lparr>warnings = [], errors = [info_issue]\<rparr> =
     (Resolved ''AI fix failed: Could not parse YAML response from AI.'',
      [(''{info: {title: Shop}}'', [info_issue])])"
  by code_simp

text \<open>
  C3, as the code has it: when the parsed output holds no issue, the handler answers 200
  with the fixed text \<open>No issues found. Original YAML is valid.\<close> in the place of the
  repaired document, and sends no request; \<open>getAiFixes\<close> itself sends none for two empty
  lists, as does the one of index.js.
\<close>

theorem C3_no_issues:
  assumes "errors (formatSpectralOutput (json_parse e) (if stdout \<noteq> [] then stdout else ''[]'')) = []"
    and "warnings (formatSpectralOutput (json_parse e) (if stdout \<noteq> [] then stdout else ''[]'')) = []"
    and "\<not> (stderr \<noteq> [] \<and> stdout = [])"
  shows "validate orchestrator e originalYamlContent stdout stderr =
           (Response 200 (Report \<lparr>warnings = [], errors = []\<rparr>
                            ''No issues found. Original YAML is valid.''), []) \<and>
         snd (getAiFixes e originalYamlContent \<lparr>warnings = [], errors = []\<rparr>) = [] \<and>
         snd (getAiFixes_index e originalYamlContent \<lparr>warnings = [], errors = []\<rparr>) = []"
proof -
  let ?r = "formatSpectralOutput (json_parse e) (if stdout \<noteq> [] then stdout else ''[]'')"
  from assms(1,2) have r: "?r = \<lparr>warnings = [], errors = []\<rparr>" by (cases ?r) simp
  have "snd (getAiFixes e originalYamlContent \<lparr>warnings = [], errors = []\<rparr>) = []"
    by (simp add: getAiFixes_def errorsByChunkKey_def split: option.splits)
  moreover have "snd (getAiFixes_index e originalYamlContent \<lparr>warnings = [], errors = []\<rparr>) = []"
    by (simp add: getAiFixes_index_def fix_loop_index.simps)
  moreover from assms(3) r
  have "validate orchestrator e originalYamlContent stdout stderr =
           (Response 200 (Report \<lparr>warnings = [], errors = []\<rparr>
                            ''No issues found. Original YAML is valid.''), [])"
    by (auto simp: validate_def Let_def)
  ultimately show ?thesis by simp
qed

lemma format_empty: "formatSpectralOutput (json_parse env_fix) ''[]'' = \<lparr>warnings = [], errors = []\<rparr>"
  by code_simp

theorem C3_no_issues_witness:
  "errors (formatSpectralOutput (json_parse env_fix) ''[]'') = [] \<and>
   warnings (formatSpectralOutput (json_parse env_fix) ''[]'') = [] \<and>
   validate getAiFixes_index env_fix sample_text ''[]'' [] =
     (Response 200 (Report \<lparr>warnings = [], errors = []\<rparr>
                      ''No issues found. Original YAML is valid.''), []) \<and>
   snd (getAiFixes env_fix sample_text \<lparr>warnings = [], errors = []\<rparr>) = []"
  using C3_no_issues [of env_fix "''[]''" "[]" getAiFixes_index sample_text]
  by (simp add: format_empty)

text \<open>
  The claim C3 as stated fails: the answer does not hold the text of the document.
\<close>

theorem C3_counterexample:
  "validate getAiFixes_index env_fix sample_text ''[]'' [] =
     (Response 200 (Report \<lparr>warnings = [], errors = []\<rparr>
                      ''No issues found. Original YAML is valid.''), []) \<and>
   ''No issues found. Original YAML is valid.'' \<noteq> sample_text"
  using validate_empty by (simp add: sample_text_def)

text \<open>
  C7, at an output that is not JSON: \<open>formatSpectralOutput\<close> of index.js returns the empty
  structure and the handler answers as it does for \<open>[]\<close>, while the summary drafts
  return the status \<open>error\<close>.
\<close>

theorem C7_malformed_output_reported_valid:
  "json_parse env_fix ''[{'' = None \<and>
   formatSpectralOutput (json_parse env_fix) ''[{'' = \<lparr>warnings = [], errors = []\<rparr> \<and>
   validate getAiFixes_index env_fix sample_text ''[{'' [] =
     (Response 200 (Report \<lparr>warnings = [], errors = []\<rparr>
                      ''No issues found. Original YAML is valid.''), []) \<and>
   validate getAiFixes_index env_fix sample_text ''[{'' [] = validate getAiFixes_index env_fix sample_text ''[]'' [] \<and>
   formatSpectralOutput_summary (json_parse env_fix) ''[{'' = SummaryError ''Failed to parse Spectral output.'' \<and>
   formatSpectralOutput_summary (json_parse env_fix) ''[]'' = Summary ''valid'' 0 0 0 []"
  by code_simp

lemma split_dot_join_dot_head:
  assumes "CHR ''.'' \<notin> set s"
  shows "split_dot (join_dot (s # rest)) = s # (if rest = [] then [] else split_dot (join_dot rest))"
proof (cases rest)
  case Nil
  with assms show ?thesis by (simp add: split_dot_plain)
next
  case (Cons t ss)
  with assms show ?thesis using split_dot_append [of s "join_dot (t # ss)"] by simp
qed

lemma region_key_first:
  assumes "CHR ''.'' \<notin> set s"
    and "s = ''paths'' \<and> rest \<noteq> [] \<longrightarrow> CHR ''.'' \<notin> set (hd rest)"
  shows "region_key (s # rest) =
     (if s = ''paths'' \<and> rest \<noteq> [] then s @ ''.'' @ hd rest else s)"
proof (cases rest)
  case Nil
  with assms(1) show ?thesis
    by (simp add: region_key_def chunk_key_def split_dot_plain)
next
  case (Cons t ss)
  from assms(1) have h: "split_dot (join_dot (s # rest)) = s # split_dot (join_dot rest)"
    using split_dot_join_dot_head [of s rest] by (simp add: Cons)
  show ?thesis
  proof (cases "s = ''paths''")
    case False
    obtain w ws where "split_dot (join_dot rest) = w # ws"
      using split_dot_nonempty [of "join_dot rest"] by (cases "split_dot (join_dot rest)") auto
    with h False Cons show ?thesis by (simp add: region_key_def chunk_key_def)
  next
    case True
    with assms(2) Cons have "CHR ''.'' \<notin> set t" by simp
    from split_dot_join_dot_head [OF this, of ss] Cons
    have "split_dot (join_dot rest) = t # (if ss = [] then [] else split_dot (join_dot ss))" by simp
    with h True Cons show ?thesis by (simp add: region_key_def chunk_key_def)
  qed
qed

lemma region_key_empty: "region_key [] = []"
  by (simp add: region_key_def chunk_key_def)

lemma newItem_key:
  "newItem item = Some n \<Longrightarrow> path item = Some p \<Longrightarrow> chunk_key n = region_key p"
  by (auto simp: newItem_def region_key_def chunk_key_def)

text \<open>
  C8, as the code has it: the key of an issue is a function of its location path. For a path whose
  first segment holds no dot, nor its second when the first is \<open>paths\<close>, the key is the
  first segment, or, when that is \<open>paths\<close> and a second segment follows, the two joined by
  a dot; the later segments do not matter. An issue whose path is empty gets the empty
  string as its key. It is not dropped: in a list of issues none of whose keys names a
  member of \<open>Object.prototype\<close> the grouping succeeds and every issue, this one too, is in
  a chunk of its key.
\<close>

theorem C8_region_key:
  assumes "newItem item = Some n" and "path item = Some p"
    and "p \<noteq> [] \<longrightarrow> CHR ''.'' \<notin> set (hd p)"
    and "length p > 1 \<and> hd p = ''paths'' \<longrightarrow> CHR ''.'' \<notin> set (p ! 1)"
  shows "chunk_key n = region_key p \<and>
         region_key p =
           (case p of [] \<Rightarrow> [] | [s] \<Rightarrow> s
            | s # t # rest \<Rightarrow> if s = ''paths'' then s @ ''.'' @ t else s) \<and>
         (\<forall>allIssues. n \<in> set allIssues \<and> plain_keys allIssues \<longrightarrow>
            (\<exists>groups. errorsByChunkKey allIssues = Inr groups) \<and>
            (\<exists>batch. (chunk_key n, batch) \<in> set (Partitioner allIssues) \<and> n \<in> set batch))"
proof (intro conjI)
  from assms(1,2) show k: "chunk_key n = region_key p" by (rule newItem_key)
  show "region_key p =
           (case p of [] \<Rightarrow> [] | [s] \<Rightarrow> s
            | s # t # rest \<Rightarrow> if s = ''paths'' then s @ ''.'' @ t else s)"
  proof (cases p)
    case Nil
    then show ?thesis by (simp add: region_key_empty)
  next
    case (Cons s rest)
    with assms(3) have d: "CHR ''.'' \<notin> set s" by simp
    from assms(4) Cons have "s = ''paths'' \<and> rest \<noteq> [] \<longrightarrow> CHR ''.'' \<notin> set (hd rest)"
      by (cases rest) simp_all
    from region_key_first [OF d this] Cons show ?thesis by (cases rest) simp_all
  qed
  show "\<forall>allIssues. n \<in> set allIssues \<and> plain_keys allIssues \<longrightarrow>
            (\<exists>groups. errorsByChunkKey allIssues = Inr groups) \<and>
            (\<exists>batch. (chunk_key n, batch) \<in> set (Partitioner allIssues) \<and> n \<in> set batch)"
    using Partitioner_covers errorsByChunkKey_plain by blast
qed

lemma root_item: "newItem root_raw = Some root_issue \<and> path root_raw = Some []"
  by code_simp

lemma dotted_item:
  "newItem dotted_raw = Some dotted_issue \<and>
   path dotted_raw = Some [''paths'', ''/users'', ''get'', ''x-api-version-1.0'']"
  by code_simp

lemma root_dotted_plain: "plain_keys [dotted_issue, root_issue]"
  by code_simp

lemma root_dotted_partition:
  "Partitioner [dotted_issue, root_issue] = [(''paths./users'', [dotted_issue]), ([], [root_issue])]"
  by code_simp

theorem C8_region_key_witness:
  "newItem root_raw = Some root_issue \<and> path root_raw = Some [] \<and>
   chunk_key root_issue = [] \<and>
   newItem dotted_raw = Some dotted_issue \<and>
   path dotted_raw = Some [''paths'', ''/users'', ''get'', ''x-api-version-1.0''] \<and>
   CHR ''.'' \<in> set ''x-api-version-1.0'' \<and>
   chunk_key dotted_issue = ''paths./users'' \<and>
   ''paths./users'' \<notin> set object_prototype_names \<and> [] \<notin> set object_prototype_names \<and>
   Partitioner [dotted_issue, root_issue] = [(''paths./users'', [dotted_issue]), ([], [root_issue])] \<and>
   (\<exists>batch. ([], batch) \<in> set (Partitioner [dotted_issue, root_issue]) \<and> root_issue \<in> set batch) \<and>
   (\<exists>batch. (''paths./users'', batch) \<in> set (Partitioner [dotted_issue, root_issue]) \<and>
       dotted_issue \<in> set batch)"
proof -
  let ?p = "[''paths'', ''/users'', ''get'', ''x-api-version-1.0'']"
  from root_item have r1: "newItem root_raw = Some root_issue" and r2: "path root_raw = Some []"
    by simp_all
  from dotted_item have d1: "newItem dotted_raw = Some dotted_issue" and d2: "path dotted_raw = Some ?p"
    by simp_all
  have d3: "?p \<noteq> [] \<longrightarrow> CHR ''.'' \<notin> set (hd ?p)" by simp
  have d4: "length ?p > 1 \<and> hd ?p = ''paths'' \<longrightarrow> CHR ''.'' \<notin> set (?p ! 1)" by simp
  have dot: "CHR ''.'' \<in> set ''x-api-version-1.0''" by simp
  have r3: "([] :: string list) \<noteq> [] \<longrightarrow> CHR ''.'' \<notin> set (hd [])" by simp
  have r4: "length ([] :: string list) > 1 \<and> hd [] = ''paths'' \<longrightarrow> CHR ''.'' \<notin> set ([] ! 1)" by simp
  note t1 = C8_region_key [OF r1 r2 r3 r4]
  from t1 have rk: "chunk_key root_issue = region_key []" by (rule conjunct1)
  from t1 have rb: "\<forall>allIssues. root_issue \<in> set allIssues \<and> plain_keys allIssues \<longrightarrow>
            (\<exists>groups. errorsByChunkKey allIssues = Inr groups) \<and>
            (\<exists>batch. (chunk_key root_issue, batch) \<in> set (Partitioner allIssues) \<and> root_issue \<in> set batch)"
    by blast
  from t1 have "region_key [] =
           (case ([] :: string list) of [] \<Rightarrow> [] | [s] \<Rightarrow> s
            | s # t # rest \<Rightarrow> if s = ''paths'' then s @ ''.'' @ t else s)" by blast
  then have rk2: "region_key [] = []" by simp
  note t2 = C8_region_key [OF d1 d2 d3 d4]
  from t2 have dk: "chunk_key dotted_issue = region_key ?p" by (rule conjunct1)
  from t2 have db: "\<forall>allIssues. dotted_issue \<in> set allIssues \<and> plain_keys allIssues \<longrightarrow>
            (\<exists>groups. errorsByChunkKey allIssues = Inr groups) \<and>
            (\<exists>batch. (chunk_key dotted_issue, batch) \<in> set (Partitioner allIssues) \<and> dotted_issue \<in> set batch)"
    by blast
  from t2 have "region_key ?p =
           (case ?p of [] \<Rightarrow> [] | [s] \<Rightarrow> s
            | s # t # rest \<Rightarrow> if s = ''paths'' then s @ ''.'' @ t else s)" by blast
  then have dk2: "region_key ?p = ''paths./users''" by simp
  from rk rk2 have k1: "chunk_key root_issue = []" by simp
  from dk dk2 have k2: "chunk_key dotted_issue = ''paths./users''" by simp
  from rb root_dotted_plain
  have "\<exists>batch. (chunk_key root_issue, batch) \<in> set (Partitioner [dotted_issue, root_issue]) \<and>
          root_issue \<in> set batch"
    by simp
  then have b1: "\<exists>batch. ([], batch) \<in> set (Partitioner [dotted_issue, root_issue]) \<and> root_issue \<in> set batch"
    unfolding k1 .
  from db root_dotted_plain
  have "\<exists>batch. (chunk_key dotted_issue, batch) \<in> set (Partitioner [dotted_issue, root_issue]) \<and>
          dotted_issue \<in> set batch"
    by simp
  then have b2: "\<exists>batch. (''paths./users'', batch) \<in> set (Partitioner [dotted_issue, root_issue]) \<and>
          dotted_issue \<in> set batch"
    unfolding k2 .
  have n1: "''paths./users'' \<notin> set object_prototype_names" by code_simp
  have n2: "[] \<notin> set object_prototype_names" by code_simp
  from r1 r2 k1 d1 d2 dot k2 n1 n2 root_dotted_partition b1 b2 show ?thesis
    by (intro conjI)
qed

text \<open>
  The claim C8 as stated fails: the key of an empty path is the empty string, not a
  reserved \<open>root\<close>; and a segment that holds a dot is cut at the dot.
\<close>

theorem C8_counterexample:
  "region_key [] = [] \<and> region_key [] \<noteq> ''root'' \<and>
   region_key [''paths'', ''/v1.0/users'', ''get''] = ''paths./v1'' \<and>
   region_key [''paths'', ''/v1.0/users'', ''get''] \<noteq> ''paths'' @ ''.'' @ ''/v1.0/users''"
  by code_simp

end
